theory Spec2Isabelle
  imports Complex_Main "HOL-Library.Word" "HOL-Library.AList"
begin

section \<open>JavaScript values used by the validator\<close>

text \<open>
  A JavaScript string is a sequence of 16-bit code units; \<open>length\<close>, \<open>trim\<close> and
  regular expressions without the \<open>u\<close> flag all work on code units.
\<close>

type_synonym unit16 = "16 word"
type_synonym jsstring = "unit16 list"

text \<open>The code units of an ASCII literal of the source.\<close>

definition ascii :: "string \<Rightarrow> jsstring" where
  "ascii cs = map (\<lambda>c. of_nat (of_char c)) cs"

text \<open>
  What \<open>data[field]\<close> evaluates to at run time: the stored string; \<open>undefined\<close>
  when the object has no such property; or what the object inherits under that name from
  \<open>Object.prototype\<close>: a built-in function, given by its name and its \<open>length\<close>,
  or, under \<open>__proto__\<close>, the prototype object itself.
\<close>

datatype jsval = Undefined | Str jsstring | Builtin string nat | ObjectPrototype

text \<open>
  A plain object is the list of its own properties in enumeration order; keys are
  distinct in a real object, and every lookup below takes the first entry of a key.
  A key is the text of the property name. The objects are plain ones: made by an object
  literal or by \<open>JSON.parse\<close>, with the \<open>Object.prototype\<close> of a browser, unchanged,
  as their prototype.
\<close>

type_synonym ('k, 'v) object = "('k \<times> 'v) list"

definition keys :: "('k, 'v) object \<Rightarrow> 'k list" where
  "keys obj = map fst obj"

text \<open>
  The properties of \<open>Object.prototype\<close>, none of them enumerable: eleven functions,
  each writable, listed by key with the name and the \<open>length\<close> of the function, and
  the accessor \<open>__proto__\<close>.
\<close>

definition object_prototype :: "(string \<times> string \<times> nat) list" where
  "object_prototype =
     [(''constructor'', ''Object'', 1),
      (''__defineGetter__'', ''__defineGetter__'', 2),
      (''__defineSetter__'', ''__defineSetter__'', 2),
      (''hasOwnProperty'', ''hasOwnProperty'', 1),
      (''__lookupGetter__'', ''__lookupGetter__'', 1),
      (''__lookupSetter__'', ''__lookupSetter__'', 1),
      (''isPrototypeOf'', ''isPrototypeOf'', 1),
      (''propertyIsEnumerable'', ''propertyIsEnumerable'', 1),
      (''toString'', ''toString'', 0),
      (''valueOf'', ''valueOf'', 0),
      (''toLocaleString'', ''toLocaleString'', 0)]"

text \<open>What a plain object gives under a key that is not its own.\<close>

definition inherited :: "string \<Rightarrow> jsval" where
  "inherited field =
     (case map_of object_prototype field of
        Some (fname, n) \<Rightarrow> Builtin fname n
      | None \<Rightarrow> if field = ''__proto__'' then ObjectPrototype else Undefined)"

text \<open>
  \<open>data[field]\<close> on an object whose properties are strings: the own property, else
  the inherited one.
\<close>

definition lookup :: "(string, jsstring) object \<Rightarrow> string \<Rightarrow> jsval" where
  "lookup data field =
     (case map_of data field of None \<Rightarrow> inherited field | Some s \<Rightarrow> Str s)"

text \<open>
  \<open>obj[field] = m\<close> for a string \<open>m\<close>. An own property is overwritten. Otherwise
  the key is sought in the prototype: \<open>__proto__\<close> is found as an accessor, and its
  setter ignores a string, so nothing is written; any other key, inherited as a writable
  function or not at all, becomes an own property.
\<close>

definition assign ::
  "string \<Rightarrow> jsstring \<Rightarrow> (string, jsstring) object \<Rightarrow> (string, jsstring) object" where
  "assign field m obj =
     (if field = ''__proto__'' \<and> map_of obj field = None then obj
      else AList.update field m obj)"

text \<open>
  \<open>ToString\<close>. The text of a built-in function is the host's up to white space; it
  is given as V8 prints it.
\<close>

fun to_string :: "jsval \<Rightarrow> jsstring" where
  "to_string Undefined = ascii ''undefined''"
| "to_string (Str s) = s"
| "to_string (Builtin fname n) = ascii (''function '' @ fname @ ''() { [native code] }'')"
| "to_string ObjectPrototype = ascii ''[object Object]''"

text \<open>\<open>!v\<close>: \<open>undefined\<close> and the empty string are falsy, an object is truthy.\<close>

fun js_not :: "jsval \<Rightarrow> bool" where
  "js_not Undefined = True"
| "js_not (Str s) = (s = [])"
| "js_not (Builtin fname n) = False"
| "js_not ObjectPrototype = False"

datatype js_error = TypeError

text \<open>
  A call of a string method on \<open>v\<close> (\<open>v.trim()\<close>): a \<open>TypeError\<close> unless
  \<open>v\<close> is a string, as \<open>undefined\<close> has no properties and the inherited values
  have no such method.
\<close>

fun on_string :: "jsval \<Rightarrow> (jsstring \<Rightarrow> 'a) \<Rightarrow> js_error + 'a" where
  "on_string (Str s) f = Inr (f s)"
| "on_string v f = Inl TypeError"

text \<open>
  The read \<open>v.length\<close>: a \<open>TypeError\<close> on \<open>undefined\<close>; the length of a string
  or of a built-in function; \<open>undefined\<close> (\<open>None\<close>) on the prototype object, which
  has no such property.
\<close>

fun on_length :: "jsval \<Rightarrow> (nat option \<Rightarrow> 'a) \<Rightarrow> js_error + 'a" where
  "on_length Undefined f = Inl TypeError"
| "on_length (Str s) f = Inr (f (Some (length s)))"
| "on_length (Builtin fname n) f = Inr (f (Some n))"
| "on_length ObjectPrototype f = Inr (f None)"

text \<open>The comparisons \<open>l > k\<close> and \<open>l >= k\<close> of a length read: false on \<open>undefined\<close>.\<close>

fun len_gt :: "nat option \<Rightarrow> nat \<Rightarrow> bool" where
  "len_gt None k = False"
| "len_gt (Some n) k = (k < n)"

fun len_ge :: "nat option \<Rightarrow> nat \<Rightarrow> bool" where
  "len_ge None k = False"
| "len_ge (Some n) k = (k \<le> n)"

subsection \<open>White space and \<open>trim\<close>\<close>

definition is_line_terminator :: "unit16 \<Rightarrow> bool" where
  "is_line_terminator c = (c = 0x000A \<or> c = 0x000D \<or> c = 0x2028 \<or> c = 0x2029)"

text \<open>The code units that \<open>trim\<close> strips and \<open>\s\<close> matches: WhiteSpace and LineTerminator.\<close>

definition is_white_space :: "unit16 \<Rightarrow> bool" where
  "is_white_space c =
     (c = 0x0009 \<or> c = 0x000B \<or> c = 0x000C \<or> c = 0x0020 \<or> c = 0x00A0 \<or> c = 0x1680
      \<or> (0x2000 \<le> c \<and> c \<le> 0x200A) \<or> c = 0x202F \<or> c = 0x205F \<or> c = 0x3000
      \<or> c = 0xFEFF \<or> is_line_terminator c)"

definition trim :: "jsstring \<Rightarrow> jsstring" where
  "trim s = rev (dropWhile is_white_space (rev (dropWhile is_white_space s)))"

subsection \<open>Numbers\<close>

text \<open>
  A number value is NaN, an infinity or a finite double, which is a rational. The
  comparisons are false on NaN.
\<close>

datatype number = NaN | NegInfinity | Finite rat | PosInfinity

fun isNaN :: "number \<Rightarrow> bool" where
  "isNaN NaN = True"
| "isNaN n = False"

fun num_ge :: "number \<Rightarrow> rat \<Rightarrow> bool" where
  "num_ge NaN k = False"
| "num_ge NegInfinity k = False"
| "num_ge (Finite q) k = (k \<le> q)"
| "num_ge PosInfinity k = True"

fun num_le :: "number \<Rightarrow> rat \<Rightarrow> bool" where
  "num_le NaN k = False"
| "num_le NegInfinity k = True"
| "num_le (Finite q) k = (q \<le> k)"
| "num_le PosInfinity k = False"

subsection \<open>Regular expressions\<close>

text \<open>
  The patterns of the source use literal characters, \<open>.\<close>, character classes, the
  escapes \<open>\s\<close> and \<open>\d\<close>, the quantifiers \<open>?\<close> and \<open>+\<close> on one atom, and the
  anchors \<open>^\<close> and \<open>$\<close>; none has a flag.
\<close>

datatype cls = Chr unit16 | Range unit16 unit16 | Space | Digit

datatype atom = Dot | Is cls | In "cls list" | NotIn "cls list"

datatype item = Bol | Eol | One atom | Opt atom | Plus atom

type_synonym regex = "item list"

fun in_cls :: "cls \<Rightarrow> unit16 \<Rightarrow> bool" where
  "in_cls (Chr d) c = (c = d)"
| "in_cls (Range lo hi) c = (lo \<le> c \<and> c \<le> hi)"
| "in_cls Space c = is_white_space c"
| "in_cls Digit c = (0x0030 \<le> c \<and> c \<le> 0x0039)"

fun atom_ok :: "atom \<Rightarrow> unit16 \<Rightarrow> bool" where
  "atom_ok Dot c = (\<not> is_line_terminator c)"
| "atom_ok (Is k) c = in_cls k c"
| "atom_ok (In ks) c = list_ex (\<lambda>k. in_cls k c) ks"
| "atom_ok (NotIn ks) c = (\<not> list_ex (\<lambda>k. in_cls k c) ks)"

text \<open>
  \<open>matches r b s\<close>: the pattern \<open>r\<close> matches some prefix of the remaining input \<open>s\<close>;
  \<open>b\<close> tells whether \<open>s\<close> is the whole input (the position is 0).
\<close>

fun matches :: "regex \<Rightarrow> bool \<Rightarrow> jsstring \<Rightarrow> bool" where
  "matches [] b s = True"
| "matches (Bol # r) b s = (b \<and> matches r b s)"
| "matches (Eol # r) b s = (s = [] \<and> matches r b s)"
| "matches (One a # r) b [] = False"
| "matches (One a # r) b (c # s) = (atom_ok a c \<and> matches r False s)"
| "matches (Opt a # r) b [] = matches r b []"
| "matches (Opt a # r) b (c # s) = ((atom_ok a c \<and> matches r False s) \<or> matches r b (c # s))"
| "matches (Plus a # r) b [] = False"
| "matches (Plus a # r) b (c # s) =
     (atom_ok a c \<and> (matches (Plus a # r) False s \<or> matches r False s))"

text \<open>\<open>r.test(v)\<close>: the argument is converted to a string, and a match may start anywhere.\<close>

definition test :: "regex \<Rightarrow> jsval \<Rightarrow> bool" where
  "test r v = (let s = to_string v in
     list_ex (\<lambda>i. matches r (i = 0) (drop i s)) [0 ..< Suc (length s)])"

section \<open>The validator\<close>

text \<open>
  A rule is a predicate on the field's value and the whole form data, with the message
  reported when the predicate returns false. A predicate is a JavaScript function: it
  returns a boolean or throws (\<open>Inl\<close>).
\<close>

record ('k, 'x) ValidationRule =
  check :: "jsval \<Rightarrow> ('k, jsstring) object \<Rightarrow> 'x + bool"
  message :: jsstring

text \<open>
  A schema maps a field to its rules; the property is optional, so its value may be
  \<open>undefined\<close> (\<open>None\<close>).
\<close>

type_synonym ('k, 'x) ValidationSchema = "('k, ('k, 'x) ValidationRule list option) object"

text \<open>
  The inner loop \<open>for (const rule of rules)\<close>: the first rule whose check returns false
  writes \<open>errors[field]\<close> and breaks; a check that throws ends the call.
\<close>

fun rules_loop ::
  "(string, 'x) ValidationRule list \<Rightarrow> string \<Rightarrow> (string, jsstring) object
   \<Rightarrow> (string, jsstring) object \<Rightarrow> 'x + (string, jsstring) object" where
  "rules_loop [] field data errors = Inr errors"
| "rules_loop (rule # rest) field data errors =
     (case check rule (lookup data field) data of
        Inl e \<Rightarrow> Inl e
      | Inr ok \<Rightarrow>
          if \<not> ok then Inr (assign field (message rule) errors)
          else rules_loop rest field data errors)"

text \<open>The outer loop \<open>for (const field in schema)\<close> over the keys still to visit.\<close>

fun fields_loop ::
  "string list \<Rightarrow> (string, jsstring) object \<Rightarrow> (string, 'x) ValidationSchema
   \<Rightarrow> (string, jsstring) object \<Rightarrow> 'x + (string, jsstring) object" where
  "fields_loop [] data schema errors = Inr errors"
| "fields_loop (field # rest) data schema errors =
     (case map_of schema field of
        Some (Some rules) \<Rightarrow>
          (case rules_loop rules field data errors of
             Inl e \<Rightarrow> Inl e
           | Inr errors' \<Rightarrow> fields_loop rest data schema errors')
      | _ \<Rightarrow> fields_loop rest data schema errors)"

definition validate ::
  "(string, jsstring) object \<Rightarrow> (string, 'x) ValidationSchema
   \<Rightarrow> 'x + (string, jsstring) object" where
  "validate data schema = fields_loop (keys schema) data schema []"

section \<open>The validator on a store\<close>

text \<open>
  Objects live in a store and are passed by reference, so that what a call writes, and to
  which object, is explicit. A reference is an index into the store; allocation appends.
  A cell holds an object with string properties (form data, an error report) or a schema.
  Predicates read the data object and write nothing.
\<close>

datatype 'x cell =
  is_Fields: Fields (fields_of: "(string, jsstring) object")
| is_Rules: Rules (rules_of: "(string, 'x) ValidationSchema")

type_synonym 'x store = "'x cell list"

type_synonym ref = nat

text \<open>The inner loop: \<open>errors[field] = rule.message\<close> is a write to the cell of \<open>errors\<close>.\<close>

fun rules_loop_store ::
  "(string, 'x) ValidationRule list \<Rightarrow> string \<Rightarrow> ref \<Rightarrow> ref \<Rightarrow> 'x store
   \<Rightarrow> 'x store \<times> 'x option" where
  "rules_loop_store [] field data errors h = (h, None)"
| "rules_loop_store (rule # rest) field data errors h =
     (case check rule (lookup (fields_of (h ! data)) field) (fields_of (h ! data)) of
        Inl e \<Rightarrow> (h, Some e)
      | Inr ok \<Rightarrow>
          if \<not> ok
          then (h[errors := Fields (assign field (message rule) (fields_of (h ! errors)))],
                None)
          else rules_loop_store rest field data errors h)"

fun fields_loop_store ::
  "string list \<Rightarrow> ref \<Rightarrow> ref \<Rightarrow> ref \<Rightarrow> 'x store \<Rightarrow> 'x store \<times> 'x option" where
  "fields_loop_store [] data schema errors h = (h, None)"
| "fields_loop_store (field # rest) data schema errors h =
     (case map_of (rules_of (h ! schema)) field of
        Some (Some rules) \<Rightarrow>
          (case rules_loop_store rules field data errors h of
             (h', Some e) \<Rightarrow> (h', Some e)
           | (h', None) \<Rightarrow> fields_loop_store rest data schema errors h')
      | _ \<Rightarrow> fields_loop_store rest data schema errors h)"

text \<open>
  The call: \<open>const errors = {}\<close> allocates the report, the loops fill it, and its
  reference is returned; a thrown exception leaves the call instead (\<open>Inl\<close>). The result
  is \<open>None\<close> when the arguments are not references to a data object and a schema.
\<close>

definition validate_store ::
  "'x store \<Rightarrow> ref \<Rightarrow> ref \<Rightarrow> ('x store \<times> ('x + ref)) option" where
  "validate_store h data schema =
     (if data < length h \<and> schema < length h \<and> is_Fields (h ! data) \<and> is_Rules (h ! schema)
      then
        (let errors = length h;
             h0 = h @ [Fields []]
         in case fields_loop_store (keys (rules_of (h0 ! schema))) data schema errors h0 of
              (h', Some e) \<Rightarrow> Some (h', Inl e)
            | (h', None) \<Rightarrow> Some (h', Inr errors))
      else None)"

section \<open>The registration form\<close>

subsection \<open>Messages\<close>

text \<open>
  The messages of the schema are Russian texts; each is given by its code units, with its
  meaning in English.
\<close>

text \<open>Name is required.\<close>

definition msg_name_required :: jsstring where
  "msg_name_required =
     [0x0418, 0x043C, 0x044F, 0x0020, 0x043E, 0x0431, 0x044F, 0x0437, 0x0430, 0x0442,
      0x0435, 0x043B, 0x044C, 0x043D, 0x043E]"

text \<open>At least 2 characters.\<close>

definition msg_name_min :: jsstring where
  "msg_name_min =
     [0x041C, 0x0438, 0x043D, 0x0438, 0x043C, 0x0443, 0x043C, 0x0020, 0x0032, 0x0020,
      0x0441, 0x0438, 0x043C, 0x0432, 0x043E, 0x043B, 0x0430]"

text \<open>At most 50 characters.\<close>

definition msg_name_max :: jsstring where
  "msg_name_max =
     [0x041C, 0x0430, 0x043A, 0x0441, 0x0438, 0x043C, 0x0443, 0x043C, 0x0020, 0x0035,
      0x0030, 0x0020, 0x0441, 0x0438, 0x043C, 0x0432, 0x043E, 0x043B, 0x043E, 0x0432]"

text \<open>Email is required.\<close>

definition msg_email_required :: jsstring where
  "msg_email_required =
     [0x0045, 0x006D, 0x0061, 0x0069, 0x006C, 0x0020, 0x043E, 0x0431, 0x044F, 0x0437,
      0x0430, 0x0442, 0x0435, 0x043B, 0x0435, 0x043D]"

text \<open>Malformed email.\<close>

definition msg_email_format :: jsstring where
  "msg_email_format =
     [0x041D, 0x0435, 0x043A, 0x043E, 0x0440, 0x0440, 0x0435, 0x043A, 0x0442, 0x043D,
      0x044B, 0x0439, 0x0020, 0x0444, 0x043E, 0x0440, 0x043C, 0x0430, 0x0442, 0x0020,
      0x0065, 0x006D, 0x0061, 0x0069, 0x006C]"

text \<open>Password is required.\<close>

definition msg_password_required :: jsstring where
  "msg_password_required =
     [0x041F, 0x0430, 0x0440, 0x043E, 0x043B, 0x044C, 0x0020, 0x043E, 0x0431, 0x044F,
      0x0437, 0x0430, 0x0442, 0x0435, 0x043B, 0x0435, 0x043D]"

text \<open>At least 8 characters.\<close>

definition msg_password_min :: jsstring where
  "msg_password_min =
     [0x041C, 0x0438, 0x043D, 0x0438, 0x043C, 0x0443, 0x043C, 0x0020, 0x0038, 0x0020,
      0x0441, 0x0438, 0x043C, 0x0432, 0x043E, 0x043B, 0x043E, 0x0432]"

text \<open>Needs a lower-case letter.\<close>

definition msg_password_lower :: jsstring where
  "msg_password_lower =
     [0x041D, 0x0443, 0x0436, 0x043D, 0x0430, 0x0020, 0x0445, 0x043E, 0x0442, 0x044F,
      0x0020, 0x0431, 0x044B, 0x0020, 0x043E, 0x0434, 0x043D, 0x0430, 0x0020, 0x0441,
      0x0442, 0x0440, 0x043E, 0x0447, 0x043D, 0x0430, 0x044F, 0x0020, 0x0431, 0x0443,
      0x043A, 0x0432, 0x0430]"

text \<open>Needs an upper-case letter.\<close>

definition msg_password_upper :: jsstring where
  "msg_password_upper =
     [0x041D, 0x0443, 0x0436, 0x043D, 0x0430, 0x0020, 0x0445, 0x043E, 0x0442, 0x044F,
      0x0020, 0x0431, 0x044B, 0x0020, 0x043E, 0x0434, 0x043D, 0x0430, 0x0020, 0x0437,
      0x0430, 0x0433, 0x043B, 0x0430, 0x0432, 0x043D, 0x0430, 0x044F, 0x0020, 0x0431,
      0x0443, 0x043A, 0x0432, 0x0430]"

text \<open>Needs a digit.\<close>

definition msg_password_digit :: jsstring where
  "msg_password_digit =
     [0x041D, 0x0443, 0x0436, 0x043D, 0x0430, 0x0020, 0x0445, 0x043E, 0x0442, 0x044F,
      0x0020, 0x0431, 0x044B, 0x0020, 0x043E, 0x0434, 0x043D, 0x0430, 0x0020, 0x0446,
      0x0438, 0x0444, 0x0440, 0x0430]"

text \<open>Confirm the password.\<close>

definition msg_confirm_required :: jsstring where
  "msg_confirm_required =
     [0x041F, 0x043E, 0x0434, 0x0442, 0x0432, 0x0435, 0x0440, 0x0434, 0x0438, 0x0442,
      0x0435, 0x0020, 0x043F, 0x0430, 0x0440, 0x043E, 0x043B, 0x044C]"

text \<open>The passwords do not match.\<close>

definition msg_confirm_mismatch :: jsstring where
  "msg_confirm_mismatch =
     [0x041F, 0x0430, 0x0440, 0x043E, 0x043B, 0x0438, 0x0020, 0x043D, 0x0435, 0x0020,
      0x0441, 0x043E, 0x0432, 0x043F, 0x0430, 0x0434, 0x0430, 0x044E, 0x0442]"

text \<open>Age is required.\<close>

definition msg_age_required :: jsstring where
  "msg_age_required =
     [0x0412, 0x043E, 0x0437, 0x0440, 0x0430, 0x0441, 0x0442, 0x0020, 0x043E, 0x0431,
      0x044F, 0x0437, 0x0430, 0x0442, 0x0435, 0x043B, 0x0435, 0x043D]"

text \<open>Enter a number.\<close>

definition msg_age_number :: jsstring where
  "msg_age_number =
     [0x0412, 0x0432, 0x0435, 0x0434, 0x0438, 0x0442, 0x0435, 0x0020, 0x0447, 0x0438,
      0x0441, 0x043B, 0x043E]"

text \<open>At least 18 years.\<close>

definition msg_age_min :: jsstring where
  "msg_age_min =
     [0x041C, 0x0438, 0x043D, 0x0438, 0x043C, 0x0443, 0x043C, 0x0020, 0x0031, 0x0038,
      0x0020, 0x043B, 0x0435, 0x0442]"

text \<open>Check the age.\<close>

definition msg_age_max :: jsstring where
  "msg_age_max =
     [0x041F, 0x0440, 0x043E, 0x0432, 0x0435, 0x0440, 0x044C, 0x0442, 0x0435, 0x0020,
      0x0432, 0x043E, 0x0437, 0x0440, 0x0430, 0x0441, 0x0442]"

text \<open>The URL must start with http:// or https://.\<close>

definition msg_website_url :: jsstring where
  "msg_website_url =
     [0x0055, 0x0052, 0x004C, 0x0020, 0x0434, 0x043E, 0x043B, 0x0436, 0x0435, 0x043D,
      0x0020, 0x043D, 0x0430, 0x0447, 0x0438, 0x043D, 0x0430, 0x0442, 0x044C, 0x0441,
      0x044F, 0x0020, 0x0441, 0x0020, 0x0068, 0x0074, 0x0074, 0x0070, 0x003A, 0x002F,
      0x002F, 0x0020, 0x0438, 0x043B, 0x0438, 0x0020, 0x0068, 0x0074, 0x0074, 0x0070,
      0x0073, 0x003A, 0x002F, 0x002F]"

subsection \<open>The schema\<close>

text \<open>The code unit of an ASCII character of a pattern.\<close>

definition ch :: "char \<Rightarrow> unit16" where
  "ch c = of_nat (of_char c)"

text \<open>The pattern \<open>/^[^\s@]+@[^\s@]+\.[^\s@]+$/\<close>.\<close>

definition email_re :: regex where
  "email_re =
     [Bol, Plus (NotIn [Space, Chr (ch CHR ''@'')]), One (Is (Chr (ch CHR ''@''))),
      Plus (NotIn [Space, Chr (ch CHR ''@'')]), One (Is (Chr (ch CHR ''.''))),
      Plus (NotIn [Space, Chr (ch CHR ''@'')]), Eol]"

text \<open>The patterns \<open>/[a-z]/\<close>, \<open>/[A-Z]/\<close> and \<open>/\d/\<close>.\<close>

definition lower_re :: regex where
  "lower_re = [One (In [Range (ch CHR ''a'') (ch CHR ''z'')])]"

definition upper_re :: regex where
  "upper_re = [One (In [Range (ch CHR ''A'') (ch CHR ''Z'')])]"

definition digit_re :: regex where
  "digit_re = [One (Is Digit)]"

text \<open>The pattern \<open>/^https?:\/\/.+\..+/\<close>.\<close>

definition url_re :: regex where
  "url_re =
     [Bol, One (Is (Chr (ch CHR ''h''))), One (Is (Chr (ch CHR ''t''))),
      One (Is (Chr (ch CHR ''t''))), One (Is (Chr (ch CHR ''p''))),
      Opt (Is (Chr (ch CHR ''s''))), One (Is (Chr (ch CHR '':''))),
      One (Is (Chr (ch CHR ''/''))), One (Is (Chr (ch CHR ''/''))),
      Plus Dot, One (Is (Chr (ch CHR ''.''))), Plus Dot]"

definition name_rules :: "(string, js_error) ValidationRule list" where
  "name_rules =
     [\<lparr>check = (\<lambda>v all. on_string v (\<lambda>s. length (trim s) > 0)),
       message = msg_name_required\<rparr>,
      \<lparr>check = (\<lambda>v all. on_string v (\<lambda>s. length (trim s) \<ge> 2)),
       message = msg_name_min\<rparr>,
      \<lparr>check = (\<lambda>v all. on_string v (\<lambda>s. length (trim s) \<le> 50)),
       message = msg_name_max\<rparr>]"

definition email_rules :: "(string, js_error) ValidationRule list" where
  "email_rules =
     [\<lparr>check = (\<lambda>v all. on_length v (\<lambda>l. len_gt l 0)),
       message = msg_email_required\<rparr>,
      \<lparr>check = (\<lambda>v all. Inr (test email_re v)),
       message = msg_email_format\<rparr>]"

definition password_rules :: "(string, js_error) ValidationRule list" where
  "password_rules =
     [\<lparr>check = (\<lambda>v all. on_length v (\<lambda>l. len_gt l 0)),
       message = msg_password_required\<rparr>,
      \<lparr>check = (\<lambda>v all. on_length v (\<lambda>l. len_ge l 8)),
       message = msg_password_min\<rparr>,
      \<lparr>check = (\<lambda>v all. Inr (test lower_re v)),
       message = msg_password_lower\<rparr>,
      \<lparr>check = (\<lambda>v all. Inr (test upper_re v)),
       message = msg_password_upper\<rparr>,
      \<lparr>check = (\<lambda>v all. Inr (test digit_re v)),
       message = msg_password_digit\<rparr>]"

text \<open>The second rule reads another field: \<open>v === all.password\<close>.\<close>

definition confirmPassword_rules :: "(string, js_error) ValidationRule list" where
  "confirmPassword_rules =
     [\<lparr>check = (\<lambda>v all. on_length v (\<lambda>l. len_gt l 0)),
       message = msg_confirm_required\<rparr>,
      \<lparr>check = (\<lambda>v all. Inr (v = lookup all ''password'')),
       message = msg_confirm_mismatch\<rparr>]"

text \<open>
  \<open>Number\<close>, the conversion of the host from a value to a double, is a parameter of the
  rules that call it.
\<close>

definition age_rules :: "(jsval \<Rightarrow> number) \<Rightarrow> (string, js_error) ValidationRule list" where
  "age_rules Number =
     [\<lparr>check = (\<lambda>v all. on_length v (\<lambda>l. len_gt l 0)),
       message = msg_age_required\<rparr>,
      \<lparr>check = (\<lambda>v all. Inr (\<not> isNaN (Number v))),
       message = msg_age_number\<rparr>,
      \<lparr>check = (\<lambda>v all. Inr (num_ge (Number v) 18)),
       message = msg_age_min\<rparr>,
      \<lparr>check = (\<lambda>v all. Inr (num_le (Number v) 120)),
       message = msg_age_max\<rparr>]"

text \<open>The optional field: \<open>!v || /^https?:\/\/.+\..+/.test(v)\<close>.\<close>

definition website_rules :: "(string, js_error) ValidationRule list" where
  "website_rules =
     [\<lparr>check = (\<lambda>v all. Inr (js_not v \<or> test url_re v)),
       message = msg_website_url\<rparr>]"

definition registrationSchema ::
  "(jsval \<Rightarrow> number) \<Rightarrow> (string, js_error) ValidationSchema" where
  "registrationSchema Number =
     [(''name'', Some name_rules),
      (''email'', Some email_rules),
      (''password'', Some password_rules),
      (''confirmPassword'', Some confirmPassword_rules),
      (''age'', Some (age_rules Number)),
      (''website'', Some website_rules)]"

subsection \<open>The component\<close>

record RegistrationData =
  name :: jsstring
  email :: jsstring
  password :: jsstring
  confirmPassword :: jsstring
  age :: jsstring
  website :: jsstring

text \<open>The form data as the object the validator reads by key.\<close>

definition as_object :: "RegistrationData \<Rightarrow> (string, jsstring) object" where
  "as_object d =
     [(''name'', name d), (''email'', email d), (''password'', password d),
      (''confirmPassword'', confirmPassword d), (''age'', age d), (''website'', website d)]"

datatype status = idle | success

text \<open>The four state variables of the component.\<close>

record form_state =
  formData :: RegistrationData
  errors :: "(string, jsstring) object"
  touched :: "string set"
  submitStatus :: status

text \<open>
  \<open>handleSubmit\<close>: the state after the handler and its queued updates. \<open>Inl\<close> is an
  exception leaving the handler.
\<close>

definition handleSubmit :: "(jsval \<Rightarrow> number) \<Rightarrow> form_state \<Rightarrow> js_error + form_state" where
  "handleSubmit Number st =
     (let allFields = keys (as_object (formData st));
          st1 = st\<lparr>touched := set allFields\<rparr>
      in case validate (as_object (formData st)) (registrationSchema Number) of
           Inl e \<Rightarrow> Inl e
         | Inr validationErrors \<Rightarrow>
             (let st2 = st1\<lparr>errors := validationErrors\<rparr>
              in if length (keys validationErrors) > 0 then Inr st2
                 else Inr (st2\<lparr>submitStatus := success\<rparr>)))"

section \<open>Properties of the loops\<close>

subsection \<open>Assignment\<close>

lemma map_of_assign:
  "map_of (assign f m errs) g =
     (if g = f \<and> \<not> (f = ''__proto__'' \<and> map_of errs f = None) then Some m else map_of errs g)"
  by (auto simp: assign_def update_conv')

lemma assign_no_proto:
  "map_of errs ''__proto__'' = None \<Longrightarrow> map_of (assign f m errs) ''__proto__'' = None"
  by (simp add: map_of_assign)

lemma distinct_assign: "distinct (map fst errs) \<Longrightarrow> distinct (map fst (assign f m errs))"
  by (simp add: assign_def distinct_update)

subsection \<open>The inner loop\<close>

lemma rules_loop_from_empty:
  assumes "f = ''__proto__'' \<longrightarrow> map_of errs f = None"
  shows "rules_loop rules f d errs =
     (case rules_loop rules f d [] of
        Inl x \<Rightarrow> Inl x
      | Inr e0 \<Rightarrow> Inr (case map_of e0 f of None \<Rightarrow> errs | Some m \<Rightarrow> assign f m errs))"
  using assms by (induction rules) (auto split: sum.splits simp: assign_def)

lemma rules_loop_returns_any:
  "(\<exists>e. rules_loop rules f d errs = Inr e) \<longleftrightarrow> (\<exists>e. rules_loop rules f d [] = Inr e)"
  by (induction rules) (auto split: sum.splits)

lemma rules_loop_all_pass:
  "\<forall>r\<in>set rules. check r (lookup d f) d = Inr True \<Longrightarrow> rules_loop rules f d errs = Inr errs"
  by (induction rules) auto

lemma rules_loop_returns:
  "\<forall>r\<in>set rules. \<exists>b. check r (lookup d f) d = Inr b \<Longrightarrow> \<exists>e. rules_loop rules f d errs = Inr e"
  by (induction rules) (auto split: sum.splits)

lemma rules_loop_Inr_cases:
  "rules_loop rules f d errs = Inr e \<Longrightarrow>
     (e = errs \<and> (\<forall>r\<in>set rules. check r (lookup d f) d = Inr True)) \<or>
     (\<exists>i<length rules. check (rules ! i) (lookup d f) d = Inr False \<and>
        (\<forall>j<i. check (rules ! j) (lookup d f) d = Inr True) \<and>
        e = assign f (message (rules ! i)) errs)"
proof (induction rules)
  case Nil
  then show ?case by simp
next
  case (Cons r rs)
  show ?case
  proof (cases "check r (lookup d f) d")
    case (Inl x)
    with Cons.prems show ?thesis by simp
  next
    case (Inr ok)
    show ?thesis
    proof (cases ok)
      case False
      with Inr Cons.prems have "e = assign f (message r) errs" by simp
      with Inr False show ?thesis by (intro disjI2 exI[of _ 0]) simp
    next
      case True
      with Inr Cons.prems have "rules_loop rs f d errs = Inr e" by simp
      from Cons.IH[OF this] show ?thesis
      proof
        assume "e = errs \<and> (\<forall>r\<in>set rs. check r (lookup d f) d = Inr True)"
        with Inr True show ?thesis by simp
      next
        assume "\<exists>i<length rs. check (rs ! i) (lookup d f) d = Inr False \<and>
          (\<forall>j<i. check (rs ! j) (lookup d f) d = Inr True) \<and>
          e = assign f (message (rs ! i)) errs"
        then obtain i where i: "i < length rs" "check (rs ! i) (lookup d f) d = Inr False"
          "\<forall>j<i. check (rs ! j) (lookup d f) d = Inr True"
          "e = assign f (message (rs ! i)) errs" by blast
        have "\<forall>j<Suc i. check ((r # rs) ! j) (lookup d f) d = Inr True"
          using i(3) Inr True by (auto simp: less_Suc_eq_0_disj)
        with i show ?thesis by (intro disjI2 exI[of _ "Suc i"]) simp
      qed
    qed
  qed
qed

lemma rules_loop_lookup_other:
  "rules_loop rules k d errs = Inr e \<Longrightarrow> f \<noteq> k \<Longrightarrow> map_of e f = map_of errs f"
  by (induction rules) (auto simp: map_of_assign split: sum.splits if_splits)

lemma rules_loop_distinct:
  "rules_loop rules k d errs = Inr e \<Longrightarrow> distinct (map fst errs) \<Longrightarrow> distinct (map fst e)"
  by (induction rules) (auto simp: distinct_assign split: sum.splits if_splits)

lemma rules_loop_no_proto:
  "rules_loop rules k d errs = Inr e \<Longrightarrow> map_of errs ''__proto__'' = None \<Longrightarrow>
   map_of e ''__proto__'' = None"
  by (induction rules) (auto simp: assign_no_proto split: sum.splits if_splits)


subsection \<open>The outer loop\<close>

lemma fields_loop_returns_iff:
  "(\<exists>e. fields_loop ks d s errs = Inr e) \<longleftrightarrow>
   (\<forall>k\<in>set ks. \<forall>rules. map_of s k = Some (Some rules) \<longrightarrow> (\<exists>e0. rules_loop rules k d [] = Inr e0))"
proof (induction ks arbitrary: errs)
  case Nil
  show ?case by simp
next
  case (Cons k ks)
  show ?case
  proof (cases "map_of s k")
    case None
    then show ?thesis using Cons.IH[of errs] by simp
  next
    case (Some ro)
    show ?thesis
    proof (cases ro)
      case None
      with Some show ?thesis using Cons.IH[of errs] by simp
    next
      case (Some rules)
      note rules = \<open>map_of s k = Some ro\<close> Some
      show ?thesis
      proof (cases "rules_loop rules k d errs")
        case (Inl x)
        then have "\<nexists>e0. rules_loop rules k d [] = Inr e0"
          using rules_loop_returns_any[of rules k d errs] by simp
        with rules Inl show ?thesis by auto
      next
        case (Inr errs')
        then have "\<exists>e0. rules_loop rules k d [] = Inr e0"
          using rules_loop_returns_any[of rules k d errs] by blast
        with rules Inr show ?thesis using Cons.IH[of errs'] by simp
      qed
    qed
  qed
qed

lemma fields_loop_lookup_skip:
  "fields_loop ks d s errs = Inr e \<Longrightarrow>
   f \<notin> set ks \<or> map_of s f = None \<or> map_of s f = Some None \<Longrightarrow>
   map_of e f = map_of errs f"
proof (induction ks arbitrary: errs)
  case Nil
  then show ?case by simp
next
  case (Cons k ks)
  show ?case
  proof (cases "\<exists>rules. map_of s k = Some (Some rules)")
    case False
    then have "fields_loop (k # ks) d s errs = fields_loop ks d s errs"
      by (auto split: option.splits)
    with Cons.prems have "fields_loop ks d s errs = Inr e" by simp
    moreover from Cons.prems(2) have "f \<notin> set ks \<or> map_of s f = None \<or> map_of s f = Some None"
      by auto
    ultimately show ?thesis by (rule Cons.IH)
  next
    case True
    then obtain rules where rules: "map_of s k = Some (Some rules)" by blast
    with Cons.prems(1) obtain errs' where
      step: "rules_loop rules k d errs = Inr errs'" and rest: "fields_loop ks d s errs' = Inr e"
      by (auto split: sum.splits)
    from Cons.prems(2) rules have "f \<noteq> k" and "f \<notin> set ks \<or> map_of s f = None \<or> map_of s f = Some None"
      by auto
    then show ?thesis
      using Cons.IH[OF rest] rules_loop_lookup_other[OF step] by simp
  qed
qed

lemma fields_loop_no_proto:
  "fields_loop ks d s errs = Inr e \<Longrightarrow> map_of errs ''__proto__'' = None \<Longrightarrow>
   map_of e ''__proto__'' = None"
proof (induction ks arbitrary: errs)
  case Nil
  then show ?case by simp
next
  case (Cons k ks)
  then show ?case
    by (auto split: option.splits sum.splits dest: rules_loop_no_proto)
qed

lemma fields_loop_lookup_rules:
  "fields_loop ks d s errs = Inr e \<Longrightarrow> f \<in> set ks \<Longrightarrow> map_of s f = Some (Some rules) \<Longrightarrow>
   map_of errs ''__proto__'' = None \<Longrightarrow>
   \<exists>e0. rules_loop rules f d [] = Inr e0 \<and>
     map_of e f = (case map_of e0 f of None \<Rightarrow> map_of errs f | Some m \<Rightarrow> Some m)"
proof (induction ks arbitrary: errs)
  case Nil
  then show ?case by simp
next
  case (Cons k ks)
  show ?case
  proof (cases "\<exists>rs. map_of s k = Some (Some rs)")
    case False
    then have "fields_loop (k # ks) d s errs = fields_loop ks d s errs"
      by (auto split: option.splits)
    with Cons.prems have "fields_loop ks d s errs = Inr e" by simp
    moreover from Cons.prems False have "f \<in> set ks" by auto
    ultimately show ?thesis using Cons.prems(3,4) by (intro Cons.IH)
  next
    case True
    then obtain rs where rs: "map_of s k = Some (Some rs)" by blast
    with Cons.prems(1) obtain errs' where
      step: "rules_loop rs k d errs = Inr errs'" and rest: "fields_loop ks d s errs' = Inr e"
      by (auto split: sum.splits)
    from rules_loop_no_proto[OF step Cons.prems(4)]
    have inv': "map_of errs' ''__proto__'' = None" .
    show ?thesis
    proof (cases "f = k")
      case False
      with Cons.prems have "f \<in> set ks" by simp
      from Cons.IH[OF rest this Cons.prems(3) inv'] obtain e0 where
        "rules_loop rules f d [] = Inr e0"
        "map_of e f = (case map_of e0 f of None \<Rightarrow> map_of errs' f | Some m \<Rightarrow> Some m)"
        by blast
      with rules_loop_lookup_other[OF step False] show ?thesis
        by (simp split: option.splits)
    next
      case True
      with rs Cons.prems(3) have [simp]: "rs = rules" by simp
      have "f = ''__proto__'' \<longrightarrow> map_of errs f = None" using Cons.prems(4) by simp
      from step[unfolded True[symmetric] \<open>rs = rules\<close>, unfolded rules_loop_from_empty[OF this]]
      obtain e0 where e0: "rules_loop rules f d [] = Inr e0"
        and errs': "errs' = (case map_of e0 f of None \<Rightarrow> errs | Some m \<Rightarrow> assign f m errs)"
        by (auto split: sum.splits)
      from rules_loop_no_proto[OF e0] have "map_of e0 ''__proto__'' = None" by simp
      then have "f \<noteq> ''__proto__''" if "map_of e0 f = Some m" for m
        using that by auto
      then have look: "map_of errs' f = (case map_of e0 f of None \<Rightarrow> map_of errs f | Some m \<Rightarrow> Some m)"
        by (simp add: errs' map_of_assign split: option.splits)
      show ?thesis
      proof (cases "f \<in> set ks")
        case True
        from Cons.IH[OF rest True Cons.prems(3) inv'] e0 look show ?thesis
          by (auto split: option.splits)
      next
        case False
        then have "map_of e f = map_of errs' f"
          using fields_loop_lookup_skip[OF rest] by blast
        with e0 look show ?thesis by simp
      qed
    qed
  qed
qed

lemma fields_loop_distinct:
  "fields_loop ks d s errs = Inr e \<Longrightarrow> distinct (map fst errs) \<Longrightarrow> distinct (map fst e)"
proof (induction ks arbitrary: errs)
  case Nil
  then show ?case by simp
next
  case (Cons k ks)
  then show ?case
    by (auto split: option.splits sum.splits dest: rules_loop_distinct)
qed

lemma distinct_filter_key:
  "distinct (map fst e) \<Longrightarrow> map_of e f = Some m \<Longrightarrow> filter (\<lambda>p. fst p = f) e = [(f, m)]"
proof (induction e)
  case Nil
  then show ?case by simp
next
  case (Cons p e)
  show ?case
  proof (cases "fst p = f")
    case True
    with Cons.prems have "p = (f, m)" by (cases p) auto
    moreover have "filter (\<lambda>q. fst q = f) e = []"
    proof -
      from Cons.prems(1) True have "f \<notin> fst ` set e" by auto
      then have "\<forall>q\<in>set e. fst q \<noteq> f" by force
      then show ?thesis by (simp add: filter_empty_conv)
    qed
    ultimately show ?thesis by simp
  next
    case False
    with Cons show ?thesis by (cases p) auto
  qed
qed

subsection \<open>The loops on the store compute what the loops on values compute\<close>

lemma store_write_same: "h ! r = c \<Longrightarrow> h[r := c] = h"
  by (metis list_update_id)

lemma rules_loop_store_sim:
  assumes "data < length h" "er < length h" "data \<noteq> er"
    and "h ! data = Fields d" "h ! er = Fields errs"
  shows "rules_loop_store rules f data er h =
     (case rules_loop rules f d errs of
        Inl x \<Rightarrow> (h, Some x)
      | Inr errs' \<Rightarrow> (h[er := Fields errs'], None))"
  using assms
  by (induction rules) (auto split: sum.splits simp: store_write_same)

lemma fields_loop_store_sim:
  assumes "data < length h" "schema < length h" "er < length h"
    and "data \<noteq> er" "schema \<noteq> er"
    and "h ! data = Fields d" "h ! schema = Rules s" "h ! er = Fields errs"
  shows "\<exists>errs'. fst (fields_loop_store ks data schema er h) = h[er := Fields errs'] \<and>
     (case fields_loop ks d s errs of
        Inl x \<Rightarrow> snd (fields_loop_store ks data schema er h) = Some x
      | Inr e \<Rightarrow> snd (fields_loop_store ks data schema er h) = None \<and> errs' = e)"
  using assms
proof (induction ks arbitrary: h errs)
  case Nil
  then show ?case by (auto simp: store_write_same)
next
  case (Cons k ks)
  show ?case
  proof (cases "\<exists>rs. map_of s k = Some (Some rs)")
    case False
    then have skip: "fields_loop_store (k # ks) data schema er h = fields_loop_store ks data schema er h"
      "fields_loop (k # ks) d s errs = fields_loop ks d s errs"
      using Cons.prems by (auto split: option.splits)
    show ?thesis unfolding skip by (rule Cons.IH[OF Cons.prems])
  next
    case True
    then obtain rs where rs: "map_of s k = Some (Some rs)" by blast
    note sim = rules_loop_store_sim[OF Cons.prems(1,3,4,6,8), of rs k]
    show ?thesis
    proof (cases "rules_loop rs k d errs")
      case (Inl x)
      with sim rs Cons.prems show ?thesis
        by (auto simp: store_write_same intro!: exI[of _ errs])
    next
      case (Inr errs1)
      let ?h1 = "h[er := Fields errs1]"
      from Inr sim have step: "rules_loop_store rs k data er h = (?h1, None)" by simp
      have eqs: "fields_loop_store (k # ks) data schema er h = fields_loop_store ks data schema er ?h1"
        "fields_loop (k # ks) d s errs = fields_loop ks d s errs1"
        using step rs Inr Cons.prems by simp_all
      have "\<exists>errs'. fst (fields_loop_store ks data schema er ?h1) = ?h1[er := Fields errs'] \<and>
        (case fields_loop ks d s errs1 of
           Inl x \<Rightarrow> snd (fields_loop_store ks data schema er ?h1) = Some x
         | Inr e \<Rightarrow> snd (fields_loop_store ks data schema er ?h1) = None \<and> errs' = e)"
        using Cons.prems by (intro Cons.IH) auto
      then show ?thesis unfolding eqs by simp
    qed
  qed
qed

subsection \<open>The whole call\<close>

lemma rules_loop_throws:
  "i < length rules \<Longrightarrow> check (rules ! i) (lookup d f) d = Inl x \<Longrightarrow>
   \<forall>j<i. check (rules ! j) (lookup d f) d = Inr True \<Longrightarrow>
   rules_loop rules f d errs = Inl x"
proof (induction rules arbitrary: i)
  case Nil
  then show ?case by simp
next
  case (Cons r rs)
  show ?case
  proof (cases i)
    case 0
    with Cons.prems show ?thesis by simp
  next
    case (Suc k)
    with Cons.prems have "check r (lookup d f) d = Inr True" by auto
    moreover have "rules_loop rs f d errs = Inl x"
      using Cons.prems Suc by (intro Cons.IH) auto
    ultimately show ?thesis by simp
  qed
qed

lemma in_keys_iff: "k \<in> set (keys s) \<longleftrightarrow> map_of s k \<noteq> None"
  by (simp add: keys_def map_of_eq_None_iff)

lemma validate_returns_iff:
  "(\<exists>e. validate v s = Inr e) \<longleftrightarrow>
   (\<forall>k rules. map_of s k = Some (Some rules) \<longrightarrow> (\<exists>e0. rules_loop rules k v [] = Inr e0))"
  unfolding validate_def fields_loop_returns_iff
  by (auto simp: in_keys_iff)

lemma validate_returns:
  assumes "\<forall>g rs. map_of s g = Some (Some rs) \<longrightarrow> (\<forall>r\<in>set rs. \<exists>b. check r (lookup v g) v = Inr b)"
  shows "\<exists>e. validate v s = Inr e"
  unfolding validate_returns_iff
proof (intro allI impI)
  fix k rules
  assume "map_of s k = Some (Some rules)"
  with assms have "\<forall>r\<in>set rules. \<exists>b. check r (lookup v k) v = Inr b" by blast
  then show "\<exists>e0. rules_loop rules k v [] = Inr e0" by (rule rules_loop_returns)
qed

lemma validate_lookup_rules:
  assumes "validate v s = Inr e" and "map_of s f = Some (Some rules)"
  shows "\<exists>e0. rules_loop rules f v [] = Inr e0 \<and> map_of e f = map_of e0 f"
proof -
  from assms(2) have "f \<in> set (keys s)" by (simp add: in_keys_iff)
  moreover from assms(1) have "fields_loop (keys s) v s [] = Inr e" by (simp add: validate_def)
  ultimately obtain e0 where "rules_loop rules f v [] = Inr e0"
    and "map_of e f = (case map_of e0 f of None \<Rightarrow> map_of [] f | Some m \<Rightarrow> Some m)"
    using fields_loop_lookup_rules[of "keys s" v s "[]" e f rules] assms(2) by auto
  then show ?thesis by (auto split: option.splits)
qed

lemma validate_lookup_skip:
  assumes "validate v s = Inr e" and "map_of s f = None \<or> map_of s f = Some None"
  shows "map_of e f = None"
  using assms fields_loop_lookup_skip[of "keys s" v s "[]" e f] unfolding validate_def by auto

lemma validate_distinct: "validate v s = Inr e \<Longrightarrow> distinct (map fst e)"
  unfolding validate_def using fields_loop_distinct by fastforce

lemma inherited_not_Str: "inherited f \<noteq> Str m"
  by (simp add: inherited_def split: option.splits prod.splits)

lemma lookup_Str_iff: "lookup e f = Str m \<longleftrightarrow> map_of e f = Some m"
  by (simp add: lookup_def inherited_not_Str split: option.splits)

lemma lookup_Undefined_iff:
  "lookup e f = Undefined \<longleftrightarrow> map_of e f = None \<and> inherited f = Undefined"
  by (simp add: lookup_def split: option.splits)

lemma validate_entry_first_failing:
  assumes ret: "validate v s = Inr e"
    and rules: "map_of s f = Some (Some rules)"
    and i: "i < length rules" "check (rules ! i) (lookup v f) v = Inr False"
    and first: "\<forall>j<i. check (rules ! j) (lookup v f) v \<noteq> Inr False"
    and own: "f \<noteq> ''__proto__''"
  shows "map_of e f = Some (message (rules ! i))"
proof -
  from validate_lookup_rules[OF ret rules] obtain e0 where
    e0: "rules_loop rules f v [] = Inr e0" and look: "map_of e f = map_of e0 f" by blast
  have "\<not> (\<forall>r\<in>set rules. check r (lookup v f) v = Inr True)"
  proof
    assume "\<forall>r\<in>set rules. check r (lookup v f) v = Inr True"
    with i(1) have "check (rules ! i) (lookup v f) v = Inr True" by simp
    with i(2) show False by simp
  qed
  with rules_loop_Inr_cases[OF e0]
  obtain k where k: "k < length rules" "check (rules ! k) (lookup v f) v = Inr False"
    "\<forall>j<k. check (rules ! j) (lookup v f) v = Inr True"
    "e0 = assign f (message (rules ! k)) []"
    by blast
  have "k = i"
  proof (rule ccontr)
    assume "k \<noteq> i"
    then consider "k < i" | "i < k" by linarith
    then show False
    proof cases
      case 1
      with first k(2) show False by blast
    next
      case 2
      with k(3) i(2) show False by auto
    qed
  qed
  with k(4) look own show ?thesis by (simp add: map_of_assign)
qed

lemma validate_no_proto: "validate v s = Inr e \<Longrightarrow> map_of e ''__proto__'' = None"
  unfolding validate_def using fields_loop_no_proto[of "keys s" v s "[]" e] by simp

lemma validate_entry_all_pass:
  assumes ret: "validate v s = Inr e"
    and rules: "map_of s f = Some (Some rules)"
    and pass: "\<forall>r\<in>set rules. check r (lookup v f) v = Inr True"
  shows "map_of e f = None"
proof -
  from validate_lookup_rules[OF ret rules] obtain e0 where
    e0: "rules_loop rules f v [] = Inr e0" and look: "map_of e f = map_of e0 f" by blast
  from rules_loop_all_pass[OF pass, of "[]"] e0 have "e0 = []" by simp
  with look show ?thesis by simp
qed

lemma fields_loop_all_pass:
  "\<forall>k\<in>set ks. \<forall>rules. map_of s k = Some (Some rules) \<longrightarrow>
      (\<forall>r\<in>set rules. check r (lookup d k) d = Inr True) \<Longrightarrow>
   fields_loop ks d s errs = Inr errs"
proof (induction ks)
  case Nil
  show ?case by simp
next
  case (Cons k ks)
  then have IH: "fields_loop ks d s errs = Inr errs" by simp
  show ?case
  proof (cases "\<exists>rs. map_of s k = Some (Some rs)")
    case False
    then show ?thesis using IH by (auto split: option.splits)
  next
    case True
    then obtain rs where rs: "map_of s k = Some (Some rs)" by blast
    with Cons.prems have "rules_loop rs k d errs = Inr errs"
      by (intro rules_loop_all_pass) simp
    with rs IH show ?thesis by simp
  qed
qed

section \<open>The error report\<close>

text \<open>
  For every field but \<open>__proto__\<close>: when the call returns a report, a field that has a
  failing rule is reported with the message of its earliest failing rule (index \<open>i\<close>:
  the rule returns false and no rule before it does), and the report holds exactly one
  entry for the field.
\<close>

lemma validate_reports_first_failing:
  assumes "map_of s f = Some (Some rules)"
    and "i < length rules"
    and "check (rules ! i) (lookup v f) v = Inr False"
    and "\<forall>j<i. check (rules ! j) (lookup v f) v \<noteq> Inr False"
    and "f \<noteq> ''__proto__''"
    and ret: "validate v s = Inr e"
  shows "lookup e f = Str (message (rules ! i)) \<and>
         filter (\<lambda>p. fst p = f) e = [(f, message (rules ! i))]"
proof
  from validate_entry_first_failing[OF ret assms(1-5)]
  have m: "map_of e f = Some (message (rules ! i))" .
  then show "lookup e f = Str (message (rules ! i))" by (simp add: lookup_Str_iff)
  from validate_distinct[OF ret] m
  show "filter (\<lambda>p. fst p = f) e = [(f, message (rules ! i))]" by (rule distinct_filter_key)
qed

text \<open>
  C1. The field \<open>__proto__\<close> is never reported: the assignment to \<open>errors\<close> under
  this key writes nothing. On the data with \<open>__proto__\<close> set to the empty string, and
  on the empty data, where the value read is the prototype object, the rule
  \<open>v.length > 0\<close> of the schema returns false for the field, and the call returns the
  empty report.
\<close>

theorem validate_proto_field_unreported:
  "check (email_rules ! 0) (lookup [(''__proto__'', [])] ''__proto__'') [(''__proto__'', [])] =
     Inr False \<and>
   validate [(''__proto__'', [])] [(''__proto__'', Some [email_rules ! 0])] = Inr [] \<and>
   check (email_rules ! 0) (lookup [] ''__proto__'') [] = Inr False \<and>
   validate [] [(''__proto__'', Some [email_rules ! 0])] = Inr []"
  by (simp add: validate_def keys_def email_rules_def lookup_def inherited_def
      object_prototype_def assign_def)

lemma not_in_keys_iff: "f \<notin> set (keys e) \<longleftrightarrow> map_of e f = None"
  by (simp add: in_keys_iff)

lemma validate_all_pass:
  assumes "\<forall>g rules. map_of s g = Some (Some rules) \<longrightarrow>
             (\<forall>r\<in>set rules. check r (lookup v g) v = Inr True)"
  shows "validate v s = Inr []"
  unfolding validate_def using assms by (intro fields_loop_all_pass) blast

lemma validate_entry_local:
  assumes "map_of s1 f = map_of s2 f" and "validate v s1 = Inr e1" and "validate v s2 = Inr e2"
  shows "map_of e1 f = map_of e2 f"
proof (cases "\<exists>rules. map_of s1 f = Some (Some rules)")
  case True
  then obtain rules where r1: "map_of s1 f = Some (Some rules)" by blast
  with assms(1) have r2: "map_of s2 f = Some (Some rules)" by simp
  from validate_lookup_rules[OF assms(2) r1] validate_lookup_rules[OF assms(3) r2]
  show ?thesis by auto
next
  case False
  then have "map_of s1 f = None \<or> map_of s1 f = Some None"
    by (cases "map_of s1 f") auto
  moreover from this assms(1) have "map_of s2 f = None \<or> map_of s2 f = Some None" by simp
  ultimately show ?thesis
    using validate_lookup_skip[OF assms(2)] validate_lookup_skip[OF assms(3)] by simp
qed

text \<open>
  C2. A report that the call returns has no key for a field whose every rule returns true;
  in particular none for a field that the schema lacks, leaves undefined or gives an
  empty rule list. When every rule of every field returns true, the call returns the
  empty report.
\<close>

theorem validate_valid_field_absent:
  "(\<forall>e. validate v s = Inr e \<longrightarrow>
      (\<forall>rules. map_of s f = Some (Some rules) \<longrightarrow>
         (\<forall>r\<in>set rules. check r (lookup v f) v = Inr True)) \<longrightarrow>
      f \<notin> set (keys e)) \<and>
   (\<forall>e. validate v s = Inr e \<longrightarrow>
      map_of s f = None \<or> map_of s f = Some None \<or> map_of s f = Some (Some []) \<longrightarrow>
      f \<notin> set (keys e)) \<and>
   ((\<forall>g rules. map_of s g = Some (Some rules) \<longrightarrow>
       (\<forall>r\<in>set rules. check r (lookup v g) v = Inr True)) \<longrightarrow>
    validate v s = Inr [])"
proof -
  have valid: "f \<notin> set (keys e)"
    if ret: "validate v s = Inr e"
      and pass: "\<forall>rules. map_of s f = Some (Some rules) \<longrightarrow>
         (\<forall>r\<in>set rules. check r (lookup v f) v = Inr True)" for e
  proof (cases "\<exists>rules. map_of s f = Some (Some rules)")
    case True
    then obtain rules where rules: "map_of s f = Some (Some rules)" by blast
    with pass have "\<forall>r\<in>set rules. check r (lookup v f) v = Inr True" by blast
    from validate_entry_all_pass[OF ret rules this] show ?thesis
      by (simp add: not_in_keys_iff)
  next
    case False
    then have "map_of s f = None \<or> map_of s f = Some None"
      by (cases "map_of s f") auto
    from validate_lookup_skip[OF ret this] show ?thesis
      by (simp add: not_in_keys_iff)
  qed
  have norules: "f \<notin> set (keys e)"
    if ret: "validate v s = Inr e"
      and "map_of s f = None \<or> map_of s f = Some None \<or> map_of s f = Some (Some [])" for e
  proof (rule valid[OF ret], intro allI impI)
    fix rules assume "map_of s f = Some (Some rules)"
    with that(2) have "rules = []" by auto
    then show "\<forall>r\<in>set rules. check r (lookup v f) v = Inr True" by simp
  qed
  from valid norules validate_all_pass[of s v] show ?thesis by blast
qed

theorem validate_valid_field_absent_witness:
  "validate [(''name'', ascii ''Al'')] [(''name'', Some name_rules), (''email'', Some [])] = Inr [] \<and>
   ''name'' \<notin> set (keys ([] :: (string, jsstring) object)) \<and>
   map_of [(''name'', Some name_rules), (''email'', Some [])] ''email'' = Some (Some [])"
proof -
  let ?v = "[(''name'', ascii ''Al'')]"
  let ?s = "[(''name'', Some name_rules), (''email'', Some [])]"
  have pass: "\<forall>g rules. map_of ?s g = Some (Some rules) \<longrightarrow>
       (\<forall>r\<in>set rules. check r (lookup ?v g) ?v = Inr True)"
    by (simp add: name_rules_def lookup_def ascii_def trim_def is_white_space_def
        is_line_terminator_def)
  with validate_valid_field_absent[of ?v ?s "''name''"] have "validate ?v ?s = Inr []"
    by blast
  then show ?thesis by (simp add: keys_def)
qed

text \<open>
  C5. Two schemas that map the same fields to the same rule lists, in whatever order of
  keys (\<open>map_of s1 = map_of s2\<close>), give reports that are equal as mappings: when the
  call returns on one, it returns on the other. The entry of a field depends only on the
  rule list of that field and the data: two schemas that agree on the field agree on its
  entry, whatever their other fields are.
\<close>

theorem validate_key_order_irrelevant:
  "(map_of s1 = map_of s2 \<longrightarrow>
      (\<forall>e1. validate v s1 = Inr e1 \<longrightarrow> (\<exists>e2. validate v s2 = Inr e2 \<and> map_of e2 = map_of e1))) \<and>
   (\<forall>e1 e2. map_of s1 f = map_of s2 f \<longrightarrow> validate v s1 = Inr e1 \<longrightarrow> validate v s2 = Inr e2 \<longrightarrow>
      map_of e1 f = map_of e2 f)"
proof (intro conjI allI impI)
  fix e1
  assume same: "map_of s1 = map_of s2" and ret: "validate v s1 = Inr e1"
  from ret have "\<exists>e. validate v s1 = Inr e" by blast
  then have "\<exists>e. validate v s2 = Inr e"
    unfolding validate_returns_iff same .
  then obtain e2 where e2: "validate v s2 = Inr e2" by blast
  have "map_of e2 g = map_of e1 g" for g
    using validate_entry_local[of s2 g s1 v e2 e1] same e2 ret by simp
  with e2 show "\<exists>e2. validate v s2 = Inr e2 \<and> map_of e2 = map_of e1" by auto
next
  fix e1 e2
  assume "map_of s1 f = map_of s2 f" "validate v s1 = Inr e1" "validate v s2 = Inr e2"
  then show "map_of e1 f = map_of e2 f" by (rule validate_entry_local)
qed

theorem validate_key_order_irrelevant_witness:
  "map_of [(''name'', Some name_rules), (''email'', Some email_rules)] =
   map_of [(''email'', Some email_rules), (''name'', Some name_rules)] \<and>
   validate [(''name'', []), (''email'', [])] [(''name'', Some name_rules), (''email'', Some email_rules)] =
     Inr [(''name'', msg_name_required), (''email'', msg_email_required)] \<and>
   validate [(''name'', []), (''email'', [])] [(''email'', Some email_rules), (''name'', Some name_rules)] =
     Inr [(''email'', msg_email_required), (''name'', msg_name_required)] \<and>
   map_of [(''email'', msg_email_required), (''name'', msg_name_required)] =
   map_of [(''name'', msg_name_required), (''email'', msg_email_required)]"
proof -
  let ?v = "[(''name'', []), (''email'', [])] :: (string, jsstring) object"
  let ?s1 = "[(''name'', Some name_rules), (''email'', Some email_rules)]"
  let ?s2 = "[(''email'', Some email_rules), (''name'', Some name_rules)]"
  have same: "map_of ?s1 = map_of ?s2" by (rule ext) simp
  have r1: "validate ?v ?s1 = Inr [(''name'', msg_name_required), (''email'', msg_email_required)]"
    by (simp add: validate_def keys_def assign_def name_rules_def email_rules_def lookup_def trim_def)
  have r2: "validate ?v ?s2 = Inr [(''email'', msg_email_required), (''name'', msg_name_required)]"
    by (simp add: validate_def keys_def assign_def name_rules_def email_rules_def lookup_def trim_def)
  from validate_key_order_irrelevant[of ?s1 ?s2 ?v "''name''"] same r1 r2
  have "map_of [(''email'', msg_email_required), (''name'', msg_name_required)] =
        map_of [(''name'', msg_name_required), (''email'', msg_email_required)]"
    by (simp del: map_of.simps)
  with same r1 r2 show ?thesis by (simp only: simp_thms)
qed

section \<open>Fields that the data lacks\<close>

lemma validate_throws:
  assumes rules: "map_of s f = Some (Some rules)"
    and i: "i < length rules" "check (rules ! i) (lookup v f) v = Inl x"
    and before: "\<forall>j<i. check (rules ! j) (lookup v f) v = Inr True"
  shows "\<exists>y. validate v s = Inl y"
proof (cases "validate v s")
  case (Inl y)
  then show ?thesis by blast
next
  case (Inr e)
  from validate_lookup_rules[OF Inr rules] obtain e0 where "rules_loop rules f v [] = Inr e0"
    by blast
  with rules_loop_throws[OF i before, of "[]"] show ?thesis by simp
qed

text \<open>
  C3 (as the code has it). The predicates of a field that the data neither has nor
  inherits from \<open>Object.prototype\<close> are given \<open>undefined\<close>, not the empty string.
  When a predicate that is reached throws on it, the call fails; when the call returns and
  the rule at index \<open>i\<close> is the first that returns false on \<open>undefined\<close>, its
  message is reported. The call returns a report whenever no predicate of the schema
  throws on the values it is given.
\<close>

theorem validate_missing_key:
  assumes "map_of v f = None" and "inherited f = Undefined"
    and "map_of s f = Some (Some rules)"
  shows "(\<forall>i x. i < length rules \<and> check (rules ! i) Undefined v = Inl x \<and>
            (\<forall>j<i. check (rules ! j) Undefined v = Inr True) \<longrightarrow>
            (\<exists>y. validate v s = Inl y)) \<and>
         (\<forall>i e. validate v s = Inr e \<and> i < length rules \<and>
            check (rules ! i) Undefined v = Inr False \<and>
            (\<forall>j<i. check (rules ! j) Undefined v \<noteq> Inr False) \<longrightarrow>
            lookup e f = Str (message (rules ! i))) \<and>
         ((\<forall>g rs. map_of s g = Some (Some rs) \<longrightarrow>
             (\<forall>r\<in>set rs. \<exists>b. check r (lookup v g) v = Inr b)) \<longrightarrow>
          (\<exists>e. validate v s = Inr e))"
proof -
  from assms(1,2) have undef: "lookup v f = Undefined" by (simp add: lookup_def)
  from assms(2) have own: "f \<noteq> ''__proto__''"
    by (auto simp: inherited_def object_prototype_def)
  have throws: "\<exists>y. validate v s = Inl y"
    if "i < length rules" "check (rules ! i) Undefined v = Inl x"
      "\<forall>j<i. check (rules ! j) Undefined v = Inr True" for i x
    using validate_throws[OF assms(3), of i v x] that undef by simp
  have reported: "lookup e f = Str (message (rules ! i))"
    if "validate v s = Inr e" "i < length rules" "check (rules ! i) Undefined v = Inr False"
      "\<forall>j<i. check (rules ! j) Undefined v \<noteq> Inr False" for i e
    using validate_entry_first_failing[OF that(1) assms(3) that(2), unfolded undef, OF that(3,4) own]
    by (simp add: lookup_Str_iff)
  from throws reported validate_returns[of s v] show ?thesis by blast
qed

theorem validate_missing_key_witness:
  "map_of ([] :: (string, jsstring) object) ''email'' = None \<and>
   inherited ''email'' = Undefined \<and>
   check (email_rules ! 0) Undefined [] = Inl TypeError \<and>
   (\<exists>y. validate [] [(''email'', Some email_rules)] = Inl y)"
proof -
  have h1: "map_of ([] :: (string, jsstring) object) ''email'' = None" by simp
  have h2: "map_of [(''email'', Some email_rules)] ''email'' = Some (Some email_rules)" by simp
  have h3: "check (email_rules ! 0) Undefined [] = Inl TypeError"
    by (simp add: email_rules_def)
  have h4: "0 < length email_rules" by (simp add: email_rules_def)
  have h5: "inherited ''email'' = Undefined"
    by (simp add: inherited_def object_prototype_def)
  from validate_missing_key[OF h1 h5 h2] h3 h4
  have "\<exists>y. validate [] [(''email'', Some email_rules)] = Inl y" by blast
  with h1 h3 h5 show ?thesis by simp
qed

text \<open>
  C3 as stated fails on the data \<open>{}\<close> and the schema with the rules of \<open>email\<close>: the
  first rule reads \<open>v.length\<close> of \<open>undefined\<close> and the call throws, while on the
  data with \<open>email\<close> set to the empty string it returns a report.
\<close>

theorem validate_missing_key_counterexample:
  "map_of ([] :: (string, jsstring) object) ''email'' = None \<and>
   validate [] [(''email'', Some email_rules)] = Inl TypeError \<and>
   validate [(''email'', [])] [(''email'', Some email_rules)] = Inr [(''email'', msg_email_required)]"
  by (simp add: validate_def keys_def email_rules_def lookup_def inherited_def
      object_prototype_def assign_def)

section \<open>The registration schema\<close>

lemmas rule_defs = name_rules_def email_rules_def password_rules_def confirmPassword_rules_def
  age_rules_def website_rules_def

lemma registration_returns:
  "\<exists>e. validate (as_object d) (registrationSchema Number) = Inr e"
proof (rule validate_returns, intro allI impI)
  fix g rs
  assume "map_of (registrationSchema Number) g = Some (Some rs)"
  then show "\<forall>r\<in>set rs. \<exists>b. check r (lookup (as_object d) g) (as_object d) = Inr b"
    by (auto simp: registrationSchema_def as_object_def lookup_def rule_defs split: if_splits)
qed

lemma test_Bol: "test (Bol # r) v = matches r True (to_string v)"
  by (auto simp: test_def list_ex_iff)

lemma matches_One: "matches (One a # r) b s \<longleftrightarrow> (\<exists>c t. s = c # t \<and> atom_ok a c \<and> matches r False t)"
  by (cases s) auto

lemma matches_Opt:
  "matches (Opt a # r) b s \<longleftrightarrow> (\<exists>c t. s = c # t \<and> atom_ok a c \<and> matches r False t) \<or> matches r b s"
  by (cases s) auto

lemma matches_Plus_split:
  "matches (Plus a # r) b s \<Longrightarrow> \<exists>u t. u \<noteq> [] \<and> s = u @ t \<and> matches r False t"
proof (induction s arbitrary: b)
  case Nil
  then show ?case by simp
next
  case (Cons c s)
  then have "matches (Plus a # r) False s \<or> matches r False s" by simp
  then show ?case
  proof
    assume "matches (Plus a # r) False s"
    from Cons.IH[OF this] obtain u t where "u \<noteq> []" "s = u @ t" "matches r False t" by blast
    then show ?thesis by (intro exI[of _ "c # u"] exI[of _ t]) simp
  next
    assume "matches r False s"
    then show ?thesis by (intro exI[of _ "[c]"] exI[of _ s]) simp
  qed
qed

lemma url_tail_shape:
  assumes "matches [Plus Dot, One (Is (Chr c)), Plus Dot] b s"
  shows "\<exists>u t. u \<noteq> [] \<and> t \<noteq> [] \<and> s = u @ c # t"
proof -
  from matches_Plus_split[OF assms] obtain u t' where
    u: "u \<noteq> []" "s = u @ t'" and m: "matches [One (Is (Chr c)), Plus Dot] False t'" by blast
  from m obtain t where "t' = c # t" "matches [Plus Dot] False t"
    by (auto simp: matches_One)
  moreover from this have "t \<noteq> []" by (cases t) auto
  ultimately show ?thesis using u by blast
qed

lemma url_test_prefix:
  "test url_re (Str w) \<longleftrightarrow>
     (\<exists>rest. (w = ascii ''http://'' @ rest \<or> w = ascii ''https://'' @ rest) \<and>
        matches [Plus Dot, One (Is (Chr (ch CHR ''.''))), Plus Dot] False rest)"
  by (auto simp: url_re_def test_Bol matches_One matches_Opt ascii_def ch_def)

lemma schema_confirmPassword:
  "map_of (registrationSchema Number) ''confirmPassword'' = Some (Some confirmPassword_rules)"
  by (simp add: registrationSchema_def)

lemma schema_website:
  "map_of (registrationSchema Number) ''website'' = Some (Some website_rules)"
  by (simp add: registrationSchema_def)

lemma lookup_confirmPassword:
  "lookup (as_object d) ''confirmPassword'' = Str (confirmPassword d)"
  by (simp add: as_object_def lookup_def)

lemma lookup_password: "lookup (as_object d) ''password'' = Str (password d)"
  by (simp add: as_object_def lookup_def)

lemma lookup_website: "lookup (as_object d) ''website'' = Str (website d)"
  by (simp add: as_object_def lookup_def)

lemma not_inherited:
  "inherited ''website'' = Undefined" "inherited ''confirmPassword'' = Undefined"
  by (simp_all add: inherited_def object_prototype_def)

lemma website_entry:
  assumes "validate (as_object d) (registrationSchema Number) = Inr e"
  shows "lookup e ''website'' =
     (if website d = [] \<or> test url_re (Str (website d)) then Undefined else Str msg_website_url)"
proof (cases "website d = [] \<or> test url_re (Str (website d))")
  case True
  then have "\<forall>r\<in>set website_rules.
      check r (lookup (as_object d) ''website'') (as_object d) = Inr True"
    by (auto simp: website_rules_def lookup_website)
  from validate_entry_all_pass[OF assms schema_website this] True show ?thesis
    by (simp add: lookup_Undefined_iff not_inherited)
next
  case False
  then have "check (website_rules ! 0) (lookup (as_object d) ''website'') (as_object d) = Inr False"
    by (simp add: website_rules_def lookup_website)
  from validate_entry_first_failing[OF assms schema_website _ this] False show ?thesis
    by (simp add: lookup_Str_iff website_rules_def)
qed

lemma confirmPassword_entry:
  assumes "validate (as_object d) (registrationSchema Number) = Inr e"
    and "confirmPassword d \<noteq> []"
  shows "lookup e ''confirmPassword'' =
     (if confirmPassword d = password d then Undefined else Str msg_confirm_mismatch)"
proof (cases "confirmPassword d = password d")
  case True
  with assms(2) have "\<forall>r\<in>set confirmPassword_rules.
      check r (lookup (as_object d) ''confirmPassword'') (as_object d) = Inr True"
    by (simp add: confirmPassword_rules_def lookup_confirmPassword lookup_password)
  from validate_entry_all_pass[OF assms(1) schema_confirmPassword this] True show ?thesis
    by (simp add: lookup_Undefined_iff not_inherited)
next
  case False
  let ?x = "lookup (as_object d) ''confirmPassword''"
  from False have fail: "check (confirmPassword_rules ! 1) ?x (as_object d) = Inr False"
    by (simp add: confirmPassword_rules_def lookup_confirmPassword lookup_password)
  from assms(2) have first: "\<forall>j<1. check (confirmPassword_rules ! j) ?x (as_object d) \<noteq> Inr False"
    by (simp add: confirmPassword_rules_def lookup_confirmPassword)
  have len: "1 < length confirmPassword_rules" by (simp add: confirmPassword_rules_def)
  have "''confirmPassword'' \<noteq> ''__proto__''" by simp
  from validate_entry_first_failing[OF assms(1) schema_confirmPassword len fail first this] False
  show ?thesis by (simp add: lookup_Str_iff confirmPassword_rules_def)
qed

lemma confirmPassword_only:
  assumes "lookup v ''confirmPassword'' = Str c" and "c \<noteq> []"
  shows "validate v [(''confirmPassword'', Some confirmPassword_rules)] =
     (if Str c = lookup v ''password'' then Inr []
      else Inr [(''confirmPassword'', msg_confirm_mismatch)])"
  using assms by (simp add: validate_def keys_def assign_def confirmPassword_rules_def)

lemma website_only:
  assumes "lookup v ''website'' = Str w"
  shows "validate v [(''website'', Some website_rules)] =
     (if w = [] \<or> test url_re (Str w) then Inr [] else Inr [(''website'', msg_website_url)])"
  using assms by (simp add: validate_def keys_def assign_def website_rules_def)

text \<open>
  C8. On every form data whose password is \<open>Abcdefg1\<close>, the other fields being
  arbitrary: with the same text as confirmation the report has no entry for
  \<open>confirmPassword\<close>; with the confirmation \<open>different\<close> it reports the
  mismatch message of the schema for it. The same holds for the schema that has the rules
  of \<open>confirmPassword\<close> alone, on any data with these two values.
\<close>

theorem confirmPassword_cross_field:
  "(password d = ascii ''Abcdefg1'' \<and> confirmPassword d = ascii ''Abcdefg1'' \<longrightarrow>
      (\<exists>e. validate (as_object d) (registrationSchema Number) = Inr e \<and>
           lookup e ''confirmPassword'' = Undefined \<and> ''confirmPassword'' \<notin> set (keys e))) \<and>
   (password d = ascii ''Abcdefg1'' \<and> confirmPassword d = ascii ''different'' \<longrightarrow>
      (\<exists>e. validate (as_object d) (registrationSchema Number) = Inr e \<and>
           lookup e ''confirmPassword'' = Str msg_confirm_mismatch)) \<and>
   (lookup v ''password'' = Str (ascii ''Abcdefg1'') \<and>
    lookup v ''confirmPassword'' = Str (ascii ''Abcdefg1'') \<longrightarrow>
      validate v [(''confirmPassword'', Some confirmPassword_rules)] = Inr []) \<and>
   (lookup v ''password'' = Str (ascii ''Abcdefg1'') \<and>
    lookup v ''confirmPassword'' = Str (ascii ''different'') \<longrightarrow>
      validate v [(''confirmPassword'', Some confirmPassword_rules)] =
        Inr [(''confirmPassword'', msg_confirm_mismatch)])"
proof -
  from registration_returns obtain e where
    e: "validate (as_object d) (registrationSchema Number) = Inr e" by blast
  have "lookup e ''confirmPassword'' = Undefined \<and> ''confirmPassword'' \<notin> set (keys e)"
    if "password d = ascii ''Abcdefg1'' \<and> confirmPassword d = ascii ''Abcdefg1''"
    using confirmPassword_entry[OF e] that
    by (simp add: ascii_def not_in_keys_iff lookup_Undefined_iff not_inherited)
  moreover have "lookup e ''confirmPassword'' = Str msg_confirm_mismatch"
    if "password d = ascii ''Abcdefg1'' \<and> confirmPassword d = ascii ''different''"
    using confirmPassword_entry[OF e] that by (simp add: ascii_def)
  moreover have "validate v [(''confirmPassword'', Some confirmPassword_rules)] = Inr []"
    if "lookup v ''password'' = Str (ascii ''Abcdefg1'') \<and>
        lookup v ''confirmPassword'' = Str (ascii ''Abcdefg1'')"
    using confirmPassword_only[of v "ascii ''Abcdefg1''"] that by (simp add: ascii_def)
  moreover have "validate v [(''confirmPassword'', Some confirmPassword_rules)] =
        Inr [(''confirmPassword'', msg_confirm_mismatch)]"
    if "lookup v ''password'' = Str (ascii ''Abcdefg1'') \<and>
        lookup v ''confirmPassword'' = Str (ascii ''different'')"
    using confirmPassword_only[of v "ascii ''different''"] that by (simp add: ascii_def)
  ultimately show ?thesis using e by blast
qed

theorem confirmPassword_cross_field_witness:
  "(\<forall>Number.
     (\<exists>e. validate
        (as_object \<lparr>name = [], email = [], password = ascii ''Abcdefg1'',
           confirmPassword = ascii ''Abcdefg1'', age = [], website = []\<rparr>)
        (registrationSchema Number) = Inr e \<and>
        lookup e ''confirmPassword'' = Undefined) \<and>
     (\<exists>e. validate
        (as_object \<lparr>name = [], email = [], password = ascii ''Abcdefg1'',
           confirmPassword = ascii ''different'', age = [], website = []\<rparr>)
        (registrationSchema Number) = Inr e \<and>
        lookup e ''confirmPassword'' = Str msg_confirm_mismatch)) \<and>
   validate [(''password'', ascii ''Abcdefg1''), (''confirmPassword'', ascii ''Abcdefg1'')]
     [(''confirmPassword'', Some confirmPassword_rules)] = Inr [] \<and>
   validate [(''password'', ascii ''Abcdefg1''), (''confirmPassword'', ascii ''different'')]
     [(''confirmPassword'', Some confirmPassword_rules)] =
     Inr [(''confirmPassword'', msg_confirm_mismatch)]"
proof (intro allI conjI)
  fix Number
  let ?d = "\<lparr>name = [], email = [], password = ascii ''Abcdefg1'',
           confirmPassword = ascii ''Abcdefg1'', age = [], website = []\<rparr>"
  have "password ?d = ascii ''Abcdefg1'' \<and> confirmPassword ?d = ascii ''Abcdefg1''" by simp
  with confirmPassword_cross_field[of ?d Number]
  show "\<exists>e. validate (as_object ?d) (registrationSchema Number) = Inr e \<and>
        lookup e ''confirmPassword'' = Undefined" by blast
next
  fix Number
  let ?d = "\<lparr>name = [], email = [], password = ascii ''Abcdefg1'',
           confirmPassword = ascii ''different'', age = [], website = []\<rparr>"
  have "password ?d = ascii ''Abcdefg1'' \<and> confirmPassword ?d = ascii ''different''" by simp
  with confirmPassword_cross_field[of ?d Number]
  show "\<exists>e. validate (as_object ?d) (registrationSchema Number) = Inr e \<and>
        lookup e ''confirmPassword'' = Str msg_confirm_mismatch" by blast
next
  let ?v = "[(''password'', ascii ''Abcdefg1''), (''confirmPassword'', ascii ''Abcdefg1'')]"
  have "lookup ?v ''password'' = Str (ascii ''Abcdefg1'') \<and>
        lookup ?v ''confirmPassword'' = Str (ascii ''Abcdefg1'')"
    by (simp add: lookup_def)
  with confirmPassword_cross_field[of _ _ ?v]
  show "validate ?v [(''confirmPassword'', Some confirmPassword_rules)] = Inr []" by blast
next
  let ?v = "[(''password'', ascii ''Abcdefg1''), (''confirmPassword'', ascii ''different'')]"
  have "lookup ?v ''password'' = Str (ascii ''Abcdefg1'') \<and>
        lookup ?v ''confirmPassword'' = Str (ascii ''different'')"
    by (simp add: lookup_def)
  with confirmPassword_cross_field[of _ _ ?v]
  show "validate ?v [(''confirmPassword'', Some confirmPassword_rules)] =
     Inr [(''confirmPassword'', msg_confirm_mismatch)]" by blast
qed

text \<open>
  C9. The single rule of \<open>website\<close>: no entry for the empty string, the message of
  the rule for \<open>not-a-url\<close>, no entry for \<open>https://example.com\<close>; the other
  fields are arbitrary. The same holds for the schema that has the rule of \<open>website\<close>
  alone.
\<close>

theorem website_rule_scenarios:
  "(website d = [] \<longrightarrow>
      (\<exists>e. validate (as_object d) (registrationSchema Number) = Inr e \<and>
           lookup e ''website'' = Undefined)) \<and>
   (website d = ascii ''not-a-url'' \<longrightarrow>
      (\<exists>e. validate (as_object d) (registrationSchema Number) = Inr e \<and>
           lookup e ''website'' = Str msg_website_url)) \<and>
   (website d = ascii ''https://example.com'' \<longrightarrow>
      (\<exists>e. validate (as_object d) (registrationSchema Number) = Inr e \<and>
           lookup e ''website'' = Undefined)) \<and>
   (lookup v ''website'' = Str [] \<longrightarrow>
      validate v [(''website'', Some website_rules)] = Inr []) \<and>
   (lookup v ''website'' = Str (ascii ''not-a-url'') \<longrightarrow>
      validate v [(''website'', Some website_rules)] = Inr [(''website'', msg_website_url)]) \<and>
   (lookup v ''website'' = Str (ascii ''https://example.com'') \<longrightarrow>
      validate v [(''website'', Some website_rules)] = Inr [])"
proof -
  from registration_returns obtain e where
    e: "validate (as_object d) (registrationSchema Number) = Inr e" by blast
  have t1: "\<not> test url_re (Str (ascii ''not-a-url''))" by code_simp
  have t2: "test url_re (Str (ascii ''https://example.com''))" by code_simp
  have n1: "ascii ''not-a-url'' \<noteq> []" by (simp add: ascii_def)
  have full: "(website d = [] \<longrightarrow> lookup e ''website'' = Undefined) \<and>
    (website d = ascii ''not-a-url'' \<longrightarrow> lookup e ''website'' = Str msg_website_url) \<and>
    (website d = ascii ''https://example.com'' \<longrightarrow> lookup e ''website'' = Undefined)"
    using website_entry[OF e] t1 t2 n1 by auto
  have only: "(lookup v ''website'' = Str [] \<longrightarrow>
      validate v [(''website'', Some website_rules)] = Inr []) \<and>
   (lookup v ''website'' = Str (ascii ''not-a-url'') \<longrightarrow>
      validate v [(''website'', Some website_rules)] = Inr [(''website'', msg_website_url)]) \<and>
   (lookup v ''website'' = Str (ascii ''https://example.com'') \<longrightarrow>
      validate v [(''website'', Some website_rules)] = Inr [])"
    using website_only[of v] t1 t2 n1 by auto
  from full only e show ?thesis by blast
qed

theorem website_rule_scenarios_witness:
  "(\<forall>Number.
     (\<exists>e. validate
        (as_object \<lparr>name = [], email = [], password = [], confirmPassword = [], age = [],
           website = []\<rparr>) (registrationSchema Number) = Inr e \<and>
        lookup e ''website'' = Undefined) \<and>
     (\<exists>e. validate
        (as_object \<lparr>name = [], email = [], password = [], confirmPassword = [], age = [],
           website = ascii ''not-a-url''\<rparr>) (registrationSchema Number) = Inr e \<and>
        lookup e ''website'' = Str msg_website_url) \<and>
     (\<exists>e. validate
        (as_object \<lparr>name = [], email = [], password = [], confirmPassword = [], age = [],
           website = ascii ''https://example.com''\<rparr>) (registrationSchema Number) = Inr e \<and>
        lookup e ''website'' = Undefined)) \<and>
   validate [(''website'', [])] [(''website'', Some website_rules)] = Inr [] \<and>
   validate [(''website'', ascii ''not-a-url'')] [(''website'', Some website_rules)] =
     Inr [(''website'', msg_website_url)] \<and>
   validate [(''website'', ascii ''https://example.com'')] [(''website'', Some website_rules)] =
     Inr []"
proof (intro allI conjI)
  fix Number
  let ?d = "\<lparr>name = [], email = [], password = [], confirmPassword = [], age = [],
           website = []\<rparr>"
  have "website ?d = []" by simp
  with website_rule_scenarios[of ?d Number]
  show "\<exists>e. validate (as_object ?d) (registrationSchema Number) = Inr e \<and>
        lookup e ''website'' = Undefined" by blast
next
  fix Number
  let ?d = "\<lparr>name = [], email = [], password = [], confirmPassword = [], age = [],
           website = ascii ''not-a-url''\<rparr>"
  have "website ?d = ascii ''not-a-url''" by simp
  with website_rule_scenarios[of ?d Number]
  show "\<exists>e. validate (as_object ?d) (registrationSchema Number) = Inr e \<and>
        lookup e ''website'' = Str msg_website_url" by blast
next
  fix Number
  let ?d = "\<lparr>name = [], email = [], password = [], confirmPassword = [], age = [],
           website = ascii ''https://example.com''\<rparr>"
  have "website ?d = ascii ''https://example.com''" by simp
  with website_rule_scenarios[of ?d Number]
  show "\<exists>e. validate (as_object ?d) (registrationSchema Number) = Inr e \<and>
        lookup e ''website'' = Undefined" by blast
next
  let ?v = "[(''website'', [])] :: (string, jsstring) object"
  have "lookup ?v ''website'' = Str []" by (simp add: lookup_def)
  with website_rule_scenarios[of _ _ ?v]
  show "validate ?v [(''website'', Some website_rules)] = Inr []" by blast
next
  let ?v = "[(''website'', ascii ''not-a-url'')]"
  have "lookup ?v ''website'' = Str (ascii ''not-a-url'')" by (simp add: lookup_def)
  with website_rule_scenarios[of _ _ ?v]
  show "validate ?v [(''website'', Some website_rules)] = Inr [(''website'', msg_website_url)]"
    by blast
next
  let ?v = "[(''website'', ascii ''https://example.com'')]"
  have "lookup ?v ''website'' = Str (ascii ''https://example.com'')" by (simp add: lookup_def)
  with website_rule_scenarios[of _ _ ?v]
  show "validate ?v [(''website'', Some website_rules)] = Inr []" by blast
qed

text \<open>
  C10. A text that the pattern of \<open>website\<close> accepts is \<open>http://\<close> or
  \<open>https://\<close>, then at least one character, a dot, and at least one more character.
  So a value that starts with one of the two prefixes and has no dot after it is reported
  with the message of the rule, as \<open>http://localhost\<close> is.
\<close>

theorem website_pattern_needs_dot:
  "(\<forall>w. test url_re (Str w) \<longrightarrow>
      (\<exists>p a b. (p = ascii ''http://'' \<or> p = ascii ''https://'') \<and> a \<noteq> [] \<and> b \<noteq> [] \<and>
         w = p @ a @ ch CHR ''.'' # b)) \<and>
   (\<forall>rest. (website d = ascii ''http://'' @ rest \<or> website d = ascii ''https://'' @ rest) \<and>
        ch CHR ''.'' \<notin> set rest \<longrightarrow>
      (\<exists>e. validate (as_object d) (registrationSchema Number) = Inr e \<and>
           lookup e ''website'' = Str msg_website_url))"
proof (intro conjI allI impI)
  fix w
  assume "test url_re (Str w)"
  then obtain p rest where p: "p = ascii ''http://'' \<or> p = ascii ''https://''" "w = p @ rest"
    and m: "matches [Plus Dot, One (Is (Chr (ch CHR ''.''))), Plus Dot] False rest"
    unfolding url_test_prefix by blast
  from url_tail_shape[OF m] obtain a b where "a \<noteq> []" "b \<noteq> []" "rest = a @ ch CHR ''.'' # b"
    by blast
  with p show "\<exists>p a b. (p = ascii ''http://'' \<or> p = ascii ''https://'') \<and> a \<noteq> [] \<and> b \<noteq> [] \<and>
         w = p @ a @ ch CHR ''.'' # b" by blast
next
  fix rest
  assume a: "(website d = ascii ''http://'' @ rest \<or> website d = ascii ''https://'' @ rest) \<and>
        ch CHR ''.'' \<notin> set rest"
  from registration_returns obtain e where
    e: "validate (as_object d) (registrationSchema Number) = Inr e" by blast
  have nonempty: "website d \<noteq> []" using a by (auto simp: ascii_def)
  have "\<not> test url_re (Str (website d))"
  proof
    assume "test url_re (Str (website d))"
    then obtain p r where p: "p = ascii ''http://'' \<or> p = ascii ''https://''" "website d = p @ r"
      and m: "matches [Plus Dot, One (Is (Chr (ch CHR ''.''))), Plus Dot] False r"
      unfolding url_test_prefix by blast
    from p a have "r = rest" by (auto simp: ascii_def)
    with url_tail_shape[OF m] a show False by auto
  qed
  with website_entry[OF e] nonempty e
  show "\<exists>e. validate (as_object d) (registrationSchema Number) = Inr e \<and>
           lookup e ''website'' = Str msg_website_url" by auto
qed

theorem website_pattern_needs_dot_witness:
  "\<forall>Number.
     ascii ''http://localhost'' = ascii ''http://'' @ ascii ''localhost'' \<and>
     ch CHR ''.'' \<notin> set (ascii ''localhost'') \<and>
     (\<exists>e. validate
        (as_object \<lparr>name = [], email = [], password = [], confirmPassword = [], age = [],
           website = ascii ''http://localhost''\<rparr>) (registrationSchema Number) = Inr e \<and>
        lookup e ''website'' = Str msg_website_url)"
proof (intro allI conjI)
  let ?d = "\<lparr>name = [], email = [], password = [], confirmPassword = [], age = [],
           website = ascii ''http://localhost''\<rparr>"
  show split: "ascii ''http://localhost'' = ascii ''http://'' @ ascii ''localhost''"
    by (simp add: ascii_def)
  show nodot: "ch CHR ''.'' \<notin> set (ascii ''localhost'')"
    by (simp add: ascii_def ch_def)
  fix Number
  from split nodot
  have "(website ?d = ascii ''http://'' @ ascii ''localhost'' \<or>
         website ?d = ascii ''https://'' @ ascii ''localhost'') \<and>
        ch CHR ''.'' \<notin> set (ascii ''localhost'')" by simp
  with website_pattern_needs_dot[of ?d Number]
  show "\<exists>e. validate (as_object ?d) (registrationSchema Number) = Inr e \<and>
        lookup e ''website'' = Str msg_website_url" by blast
qed

section \<open>Submitting the form\<close>

text \<open>
  C4. A submission validates the form data against the registration schema, which returns
  a report \<open>e\<close> on every form data; the handler marks the six fields of the form as
  touched, stores \<open>e\<close> as the errors, and sets the status to \<open>success\<close> when
  \<open>e\<close> is empty; otherwise the status stays as it was.
\<close>

theorem handleSubmit_gates_on_report:
  "\<exists>e st'. validate (as_object (formData st)) (registrationSchema Number) = Inr e \<and>
     handleSubmit Number st = Inr st' \<and>
     touched st' = {''name'', ''email'', ''password'', ''confirmPassword'', ''age'', ''website''} \<and>
     touched st' = set (keys (as_object (formData st))) \<and>
     errors st' = e \<and>
     formData st' = formData st \<and>
     (e = [] \<longrightarrow> submitStatus st' = success) \<and>
     (e \<noteq> [] \<longrightarrow> submitStatus st' = submitStatus st)"
proof -
  from registration_returns obtain e where
    e: "validate (as_object (formData st)) (registrationSchema Number) = Inr e" by blast
  show ?thesis
  proof (cases "e = []")
    case True
    with e show ?thesis
      by (auto simp: handleSubmit_def Let_def keys_def as_object_def)
  next
    case False
    with e show ?thesis
      by (auto simp: handleSubmit_def Let_def keys_def as_object_def)
  qed
qed

theorem handleSubmit_gates_on_report_witness:
  "(\<forall>Number. \<exists>st'.
      handleSubmit Number
        \<lparr>formData = \<lparr>name = [], email = [], password = [], confirmPassword = [], age = [],
            website = []\<rparr>,
         errors = [], touched = {}, submitStatus = idle\<rparr> = Inr st' \<and>
      errors st' =
        [(''name'', msg_name_required), (''email'', msg_email_required),
         (''password'', msg_password_required), (''confirmPassword'', msg_confirm_required),
         (''age'', msg_age_required)] \<and>
      ''website'' \<in> touched st' \<and>
      submitStatus st' = idle) \<and>
   (\<exists>st'.
      handleSubmit (\<lambda>v. if v = Str (ascii ''20'') then Finite 20 else NaN)
        \<lparr>formData = \<lparr>name = ascii ''Al'', email = ascii ''a@b.c'',
            password = ascii ''Abcdefg1'', confirmPassword = ascii ''Abcdefg1'',
            age = ascii ''20'', website = []\<rparr>,
         errors = [], touched = {}, submitStatus = idle\<rparr> = Inr st' \<and>
      errors st' = [] \<and>
      submitStatus st' = success)"
proof (intro conjI allI)
  fix Number
  let ?d = "\<lparr>name = [], email = [], password = [], confirmPassword = [], age = [],
            website = []\<rparr>"
  let ?st = "\<lparr>formData = ?d, errors = [], touched = {}, submitStatus = idle\<rparr>"
  have "validate (as_object ?d) (registrationSchema Number) =
     Inr [(''name'', msg_name_required), (''email'', msg_email_required),
         (''password'', msg_password_required), (''confirmPassword'', msg_confirm_required),
         (''age'', msg_age_required)]"
    by code_simp
  then have v: "validate (as_object (formData ?st)) (registrationSchema Number) =
     Inr [(''name'', msg_name_required), (''email'', msg_email_required),
         (''password'', msg_password_required), (''confirmPassword'', msg_confirm_required),
         (''age'', msg_age_required)]"
    by simp
  from handleSubmit_gates_on_report[of ?st Number] obtain e st' where
    r: "validate (as_object (formData ?st)) (registrationSchema Number) = Inr e"
      "handleSubmit Number ?st = Inr st'"
      "touched st' = {''name'', ''email'', ''password'', ''confirmPassword'', ''age'', ''website''}"
      "errors st' = e" "e \<noteq> [] \<longrightarrow> submitStatus st' = submitStatus ?st"
    by blast
  from r(1) v have e: "e = [(''name'', msg_name_required), (''email'', msg_email_required),
         (''password'', msg_password_required), (''confirmPassword'', msg_confirm_required),
         (''age'', msg_age_required)]"
    by (simp only: sum.inject)
  then have "e \<noteq> []" by (simp only: list.distinct not_False_eq_True)
  with r(5) have "submitStatus st' = idle" by simp
  moreover from r(3) have "''website'' \<in> touched st'" by simp
  ultimately show "\<exists>st'. handleSubmit Number ?st = Inr st' \<and>
      errors st' =
        [(''name'', msg_name_required), (''email'', msg_email_required),
         (''password'', msg_password_required), (''confirmPassword'', msg_confirm_required),
         (''age'', msg_age_required)] \<and>
      ''website'' \<in> touched st' \<and>
      submitStatus st' = idle"
    using r(2,4) e by (intro exI[of _ st']) (simp only: simp_thms)
next
  let ?N = "\<lambda>v. if v = Str (ascii ''20'') then Finite 20 else NaN"
  let ?d = "\<lparr>name = ascii ''Al'', email = ascii ''a@b.c'',
            password = ascii ''Abcdefg1'', confirmPassword = ascii ''Abcdefg1'',
            age = ascii ''20'', website = []\<rparr>"
  let ?st = "\<lparr>formData = ?d, errors = [], touched = {}, submitStatus = idle\<rparr>"
  have "validate (as_object ?d) (registrationSchema ?N) = Inr []"
    by code_simp
  then have v: "validate (as_object (formData ?st)) (registrationSchema ?N) = Inr []"
    by simp
  from handleSubmit_gates_on_report[of ?st ?N] obtain e st' where
    r: "validate (as_object (formData ?st)) (registrationSchema ?N) = Inr e"
      "handleSubmit ?N ?st = Inr st'" "errors st' = e" "e = [] \<longrightarrow> submitStatus st' = success"
    by blast
  from r(1) v have "e = []" by (simp only: sum.inject)
  with r show "\<exists>st'. handleSubmit ?N ?st = Inr st' \<and> errors st' = [] \<and> submitStatus st' = success"
    by (intro exI[of _ st']) (simp only: simp_thms)
qed

section \<open>The call on the store\<close>

lemma validate_store_sim:
  assumes "data < length h" "schema < length h" "h ! data = Fields d" "h ! schema = Rules s"
  shows "\<exists>errs. validate_store h data schema =
            Some (h @ [Fields errs],
                  case validate d s of Inl x \<Rightarrow> Inl x | Inr e \<Rightarrow> Inr (length h)) \<and>
           (\<forall>e. validate d s = Inr e \<longrightarrow> errs = e)"
proof -
  let ?er = "length h"
  let ?h0 = "h @ [Fields []]"
  let ?run = "fields_loop_store (keys s) data schema ?er ?h0"
  have h0: "data < length ?h0" "schema < length ?h0" "?er < length ?h0"
    "data \<noteq> ?er" "schema \<noteq> ?er"
    "?h0 ! data = Fields d" "?h0 ! schema = Rules s" "?h0 ! ?er = Fields []"
    using assms by (simp_all add: nth_append)
  from fields_loop_store_sim[OF h0, of "keys s"] obtain errs where
    st: "fst ?run = ?h0[?er := Fields errs]"
    and res: "case fields_loop (keys s) d s [] of
          Inl x \<Rightarrow> snd ?run = Some x
        | Inr e \<Rightarrow> snd ?run = None \<and> errs = e"
    by blast
  have st': "fst ?run = h @ [Fields errs]" using st by simp
  have guard: "data < length h \<and> schema < length h \<and> is_Fields (h ! data) \<and> is_Rules (h ! schema)"
    using assms by simp
  have keys: "keys (rules_of (?h0 ! schema)) = keys s" using h0(7) by simp
  show ?thesis
  proof (cases "validate d s")
    case (Inl x)
    with res have "snd ?run = Some x" by (simp add: validate_def)
    with st' have "?run = (h @ [Fields errs], Some x)" by (cases ?run) simp
    then have "validate_store h data schema = Some (h @ [Fields errs], Inl x)"
      unfolding validate_store_def Let_def keys using guard by simp
    with Inl show ?thesis by auto
  next
    case (Inr e)
    with res have "snd ?run = None" "errs = e" by (simp_all add: validate_def)
    with st' have "?run = (h @ [Fields e], None)" by (cases ?run) simp
    then have "validate_store h data schema = Some (h @ [Fields e], Inr (length h))"
      unfolding validate_store_def Let_def keys using guard by simp
    with Inr show ?thesis by auto
  qed
qed

text \<open>
  C7. A call on references to a data object and a schema leaves every object of the store
  as it was, the two arguments among them, and allocates one object. When it returns, the
  result is the reference of that new object, which is no reference of the old store and
  so differs from both arguments; the object holds the report.
\<close>

theorem validate_store_frame:
  assumes "data < length h" "schema < length h" "h ! data = Fields d" "h ! schema = Rules s"
  shows "\<exists>h' res. validate_store h data schema = Some (h', res) \<and>
           length h' = Suc (length h) \<and>
           (\<forall>r. r < length h \<longrightarrow> h' ! r = h ! r) \<and>
           h' ! data = Fields d \<and> h' ! schema = Rules s \<and>
           (\<forall>er. res = Inr er \<longrightarrow>
              er = length h \<and> er \<noteq> data \<and> er \<noteq> schema \<and>
              (\<exists>e. validate d s = Inr e \<and> h' ! er = Fields e))"
proof -
  from validate_store_sim[OF assms] obtain errs where
    run: "validate_store h data schema =
            Some (h @ [Fields errs],
                  case validate d s of Inl x \<Rightarrow> Inl x | Inr e \<Rightarrow> Inr (length h))"
    and errs: "\<forall>e. validate d s = Inr e \<longrightarrow> errs = e"
    by blast
  let ?h' = "h @ [Fields errs]"
  let ?res = "case validate d s of Inl x \<Rightarrow> Inl x | Inr e \<Rightarrow> Inr (length h)"
  have "length ?h' = Suc (length h)" by simp
  moreover have "\<forall>r. r < length h \<longrightarrow> ?h' ! r = h ! r" by (simp add: nth_append)
  moreover have "?h' ! data = Fields d" "?h' ! schema = Rules s"
    using assms by (simp_all add: nth_append)
  moreover have "\<forall>er. ?res = Inr er \<longrightarrow>
              er = length h \<and> er \<noteq> data \<and> er \<noteq> schema \<and>
              (\<exists>e. validate d s = Inr e \<and> ?h' ! er = Fields e)"
    using assms(1,2) errs by (auto split: sum.splits)
  ultimately show ?thesis using run by blast
qed

text \<open>
  C6. Two calls in a row on the same arguments end the same way: both throw the same
  exception, or both return, and then the two reports are distinct objects with equal
  contents, the first untouched by the second call. A call in any store on arguments with
  the same contents ends that way too: nothing but the contents of the arguments decides
  the result.
\<close>

theorem validate_store_twice:
  assumes "data < length h" "schema < length h" "h ! data = Fields d" "h ! schema = Rules s"
  shows "\<exists>h1 res1 h2 res2.
           validate_store h data schema = Some (h1, res1) \<and>
           validate_store h1 data schema = Some (h2, res2) \<and>
           (case res1 of
              Inl x \<Rightarrow> res2 = Inl x
            | Inr r1 \<Rightarrow> (\<exists>r2. res2 = Inr r2 \<and> r1 \<noteq> r2 \<and> h2 ! r2 = h2 ! r1 \<and> h2 ! r1 = h1 ! r1)) \<and>
           (\<forall>k data' schema'.
              data' < length k \<and> schema' < length k \<and>
              k ! data' = Fields d \<and> k ! schema' = Rules s \<longrightarrow>
              (\<exists>k' res'. validate_store k data' schema' = Some (k', res') \<and>
                 (case res1 of
                    Inl x \<Rightarrow> res' = Inl x
                  | Inr r1 \<Rightarrow> (\<exists>r'. res' = Inr r' \<and> k' ! r' = h1 ! r1))))"
proof -
  let ?res = "\<lambda>n. case validate d s of Inl x \<Rightarrow> Inl x | Inr e \<Rightarrow> Inr (n::nat)"
  from validate_store_sim[OF assms] obtain errs1 where
    run1: "validate_store h data schema = Some (h @ [Fields errs1], ?res (length h))"
    and errs1: "\<forall>e. validate d s = Inr e \<longrightarrow> errs1 = e"
    by blast
  let ?h1 = "h @ [Fields errs1]"
  have wt1: "data < length ?h1" "schema < length ?h1" "?h1 ! data = Fields d" "?h1 ! schema = Rules s"
    using assms by (simp_all add: nth_append)
  from validate_store_sim[OF wt1] obtain errs2 where
    run2: "validate_store ?h1 data schema = Some (?h1 @ [Fields errs2], ?res (length ?h1))"
    and errs2: "\<forall>e. validate d s = Inr e \<longrightarrow> errs2 = e"
    by blast
  let ?h2 = "?h1 @ [Fields errs2]"
  have seq: "case ?res (length h) of
              Inl x \<Rightarrow> ?res (length ?h1) = Inl x
            | Inr r1 \<Rightarrow> (\<exists>r2. ?res (length ?h1) = Inr r2 \<and> r1 \<noteq> r2 \<and> ?h2 ! r2 = ?h2 ! r1 \<and>
                 ?h2 ! r1 = ?h1 ! r1)"
    using errs1 errs2 by (auto split: sum.splits simp: nth_append)
  have any: "\<exists>k' res'. validate_store k data' schema' = Some (k', res') \<and>
                 (case ?res (length h) of
                    Inl x \<Rightarrow> res' = Inl x
                  | Inr r1 \<Rightarrow> (\<exists>r'. res' = Inr r' \<and> k' ! r' = ?h1 ! r1))"
    if k: "data' < length k \<and> schema' < length k \<and> k ! data' = Fields d \<and> k ! schema' = Rules s"
    for k data' schema'
  proof -
    from k validate_store_sim[of data' k schema' d s] obtain errs' where
      run': "validate_store k data' schema' = Some (k @ [Fields errs'], ?res (length k))"
      and errs': "\<forall>e. validate d s = Inr e \<longrightarrow> errs' = e"
      by blast
    have "case ?res (length h) of
            Inl x \<Rightarrow> ?res (length k) = Inl x
          | Inr r1 \<Rightarrow> (\<exists>r'. ?res (length k) = Inr r' \<and> (k @ [Fields errs']) ! r' = ?h1 ! r1)"
      using errs1 errs' by (auto split: sum.splits)
    with run' show ?thesis by blast
  qed
  from run1 run2 seq any show ?thesis by blast
qed

lemma name_A_report:
  "validate [(''name'', ascii ''A'')] [(''name'', Some name_rules)] = Inr [(''name'', msg_name_min)]"
  by (simp add: validate_def keys_def assign_def name_rules_def lookup_def ascii_def trim_def is_white_space_def
      is_line_terminator_def)

theorem validate_store_frame_witness:
  "\<exists>h'. validate_store [Fields [(''name'', ascii ''A'')], Rules [(''name'', Some name_rules)]] 0 1 =
          Some (h', Inr 2) \<and>
        length h' = 3 \<and>
        h' ! 0 = Fields [(''name'', ascii ''A'')] \<and>
        h' ! 1 = Rules [(''name'', Some name_rules)] \<and>
        h' ! 2 = Fields [(''name'', msg_name_min)]"
proof -
  let ?d = "[(''name'', ascii ''A'')]"
  let ?s = "[(''name'', Some name_rules)]"
  let ?h = "[Fields ?d, Rules ?s] :: js_error store"
  have wt: "0 < length ?h" "1 < length ?h" "?h ! 0 = Fields ?d" "?h ! 1 = Rules ?s" by simp_all
  from validate_store_frame[OF wt] obtain h' res where
    run: "validate_store ?h 0 1 = Some (h', res)"
    and frame: "length h' = Suc (length ?h)" "h' ! 0 = Fields ?d" "h' ! 1 = Rules ?s"
    and ret: "\<forall>er. res = Inr er \<longrightarrow> er = length ?h \<and> er \<noteq> 0 \<and> er \<noteq> 1 \<and>
              (\<exists>e. validate ?d ?s = Inr e \<and> h' ! er = Fields e)"
    by blast
  from validate_store_sim[OF wt] run name_A_report have res: "res = Inr 2" by auto
  with ret name_A_report have "h' ! 2 = Fields [(''name'', msg_name_min)]" by auto
  with run res frame show ?thesis by (intro exI[of _ h']) simp
qed

theorem validate_store_twice_witness:
  "\<exists>h1 h2. validate_store [Fields [(''name'', ascii ''A'')], Rules [(''name'', Some name_rules)]] 0 1 =
          Some (h1, Inr 2) \<and>
        validate_store h1 0 1 = Some (h2, Inr 3) \<and>
        h2 ! 2 = Fields [(''name'', msg_name_min)] \<and>
        h2 ! 3 = Fields [(''name'', msg_name_min)]"
proof -
  let ?d = "[(''name'', ascii ''A'')]"
  let ?s = "[(''name'', Some name_rules)]"
  let ?e = "[(''name'', msg_name_min)]"
  let ?h = "[Fields ?d, Rules ?s] :: js_error store"
  have wt: "0 < length ?h" "1 < length ?h" "?h ! 0 = Fields ?d" "?h ! 1 = Rules ?s" by simp_all
  from validate_store_twice[OF wt] obtain h1 res1 h2 res2 where
    run1: "validate_store ?h 0 1 = Some (h1, res1)"
    and run2: "validate_store h1 0 1 = Some (h2, res2)"
    and eq: "case res1 of
              Inl x \<Rightarrow> res2 = Inl x
            | Inr r1 \<Rightarrow> (\<exists>r2. res2 = Inr r2 \<and> r1 \<noteq> r2 \<and> h2 ! r2 = h2 ! r1 \<and> h2 ! r1 = h1 ! r1)"
    by blast
  from validate_store_sim[OF wt] run1 name_A_report
  have first: "h1 = ?h @ [Fields ?e]" "res1 = Inr 2" by auto
  have wt1: "0 < length h1" "1 < length h1" "h1 ! 0 = Fields ?d" "h1 ! 1 = Rules ?s"
    using first by simp_all
  from validate_store_sim[OF wt1] run2 name_A_report first
  have second: "res2 = Inr 3" by auto
  from eq first second have "h2 ! 3 = h2 ! 2" "h2 ! 2 = h1 ! 2" by auto
  with first have "h2 ! 2 = Fields ?e" "h2 ! 3 = Fields ?e" by simp_all
  with run1 run2 first second show ?thesis by (intro exI[of _ h1] exI[of _ h2]) simp
qed

end
